theory Spec2Isabelle
  imports Complex_Main
begin

section \<open>Strings\<close>

text \<open>
  A JavaScript string is a sequence of UTF-16 code units. A code unit is modelled as a
  natural number, so every string the program can receive is some \<open>jsstring\<close>.
  \<open>ascii\<close> reads an Isabelle string literal as code units, one per character.
\<close>

type_synonym jsstring = "nat list"

definition ascii :: "string \<Rightarrow> jsstring" where
  "ascii = map of_char"

text \<open>
  \<open>String.prototype.trim\<close> and the pattern class \<open>\s\<close> use the same set: ECMAScript's
  WhiteSpace (TAB, VT, FF, SP, NBSP, ZWNBSP and the Unicode space separators) and
  LineTerminator (LF, CR, LS, PS) code points.
\<close>

definition is_white_space :: "nat \<Rightarrow> bool" where
  "is_white_space c =
     (c = 9 \<or> c = 10 \<or> c = 11 \<or> c = 12 \<or> c = 13 \<or> c = 32 \<or> c = 160 \<or> c = 5760
      \<or> (8192 \<le> c \<and> c \<le> 8202) \<or> c = 8232 \<or> c = 8233 \<or> c = 8239 \<or> c = 8287
      \<or> c = 12288 \<or> c = 65279)"

definition is_digit :: "nat \<Rightarrow> bool" where
  "is_digit c = (48 \<le> c \<and> c \<le> 57)"

definition is_letter :: "nat \<Rightarrow> bool" where
  "is_letter c = ((97 \<le> c \<and> c \<le> 122) \<or> (65 \<le> c \<and> c \<le> 90))"

definition is_sign :: "nat \<Rightarrow> bool" where
  "is_sign c = (c = 43 \<or> c = 45)"

definition trim :: "jsstring \<Rightarrow> jsstring" where
  "trim s = rev (dropWhile is_white_space (rev (dropWhile is_white_space s)))"

text \<open>\<open>s.split(sep)\<close> for a separator of one code unit: never the empty list.\<close>

fun split :: "nat \<Rightarrow> jsstring \<Rightarrow> jsstring list" where
  "split sep [] = [[]]"
| "split sep (c # cs) =
     (if c = sep then [] # split sep cs
      else (case split sep cs of [] \<Rightarrow> [[c]] | p # ps \<Rightarrow> (c # p) # ps))"

text \<open>
  \<open>toLowerCase\<close> on the code units a \<open>[a-zA-Z]+\<close> capture can hold: the program
  applies it to nothing else.
\<close>

definition toLowerCase :: "jsstring \<Rightarrow> jsstring" where
  "toLowerCase s = map (\<lambda>c. if 65 \<le> c \<and> c \<le> 90 then c + 32 else c) s"

section \<open>Regular expressions\<close>

text \<open>
  The patterns of the program use character classes, sequencing, \<open>?\<close> on a group,
  \<open>+\<close> and \<open>*\<close> on a class, and capture groups. \<open>bt\<close> is the backtracking matcher
  of ECMAScript for that fragment, in continuation-passing style: it tries the greedy
  choice first and falls back when the continuation fails. The continuation gets the
  input that is left and the captures so far.
\<close>

datatype cclass = Digit | Space | Letter | Sign | Dot

fun in_class :: "cclass \<Rightarrow> nat \<Rightarrow> bool" where
  "in_class Digit c = is_digit c"
| "in_class Space c = is_white_space c"
| "in_class Letter c = is_letter c"
| "in_class Sign c = is_sign c"
| "in_class Dot c = (c = 46)"

datatype regex =
    Atom cclass
  | Seq regex regex
  | Opt regex
  | Star cclass
  | Plus cclass
  | Cap nat regex

type_synonym captures = "nat \<Rightarrow> jsstring option"

fun bt :: "regex \<Rightarrow> jsstring \<Rightarrow> captures \<Rightarrow> (jsstring \<Rightarrow> captures \<Rightarrow> 'a option) \<Rightarrow> 'a option" where
  "bt (Atom c) [] caps k = None"
| "bt (Atom c) (x # xs) caps k = (if in_class c x then k xs caps else None)"
| "bt (Seq a b) s caps k = bt a s caps (\<lambda>s' caps'. bt b s' caps' k)"
| "bt (Opt a) s caps k =
     (case bt a s caps k of Some r \<Rightarrow> Some r | None \<Rightarrow> k s caps)"
| "bt (Star c) [] caps k = k [] caps"
| "bt (Star c) (x # xs) caps k =
     (if in_class c x
      then (case bt (Star c) xs caps k of Some r \<Rightarrow> Some r | None \<Rightarrow> k (x # xs) caps)
      else k (x # xs) caps)"
| "bt (Plus c) [] caps k = None"
| "bt (Plus c) (x # xs) caps k = (if in_class c x then bt (Star c) xs caps k else None)"
| "bt (Cap n a) s caps k =
     bt a s caps (\<lambda>s' caps'. k s' (caps'(n \<mapsto> take (length s - length s') s)))"

text \<open>\<open>/^r$/.test(s)\<close>: the match starts at the first code unit and ends at the last.\<close>

definition test :: "regex \<Rightarrow> jsstring \<Rightarrow> bool" where
  "test r s = (bt r s Map.empty (\<lambda>rest caps. if rest = [] then Some () else None) \<noteq> None)"

text \<open>
  A global pattern is run over the input from left to right: at each position the
  matcher is tried; a match is recorded and the scan goes on behind it, otherwise the
  code unit is passed over. An empty match is recorded and the scan advances by one code
  unit. \<open>matchAll\<close> yields the matches in order and \<open>replace\<close> with the empty
  replacement keeps the code units passed over. The pattern object is only used through
  these two calls, so its \<open>lastIndex\<close> is 0 whenever one of them starts.
\<close>

datatype piece = Unmatched nat | Matched jsstring captures

function scan :: "regex \<Rightarrow> jsstring \<Rightarrow> piece list" where
  "scan r s =
     (case bt r s Map.empty (\<lambda>rest caps. Some (rest, caps)) of
        Some (rest, caps) \<Rightarrow>
          if length rest < length s
          then Matched (take (length s - length rest) s) caps # scan r rest
          else Matched [] caps # (case s of [] \<Rightarrow> [] | y # ys \<Rightarrow> Unmatched y # scan r ys)
      | None \<Rightarrow> (case s of [] \<Rightarrow> [] | y # ys \<Rightarrow> Unmatched y # scan r ys))"
  by pat_completeness auto
termination
  by (relation "measure (\<lambda>(r, s). length s)") auto

declare scan.simps [simp del]

fun matches_of :: "piece list \<Rightarrow> (jsstring \<times> captures) list" where
  "matches_of [] = []"
| "matches_of (Unmatched c # ps) = matches_of ps"
| "matches_of (Matched m caps # ps) = (m, caps) # matches_of ps"

fun unmatched_of :: "piece list \<Rightarrow> jsstring" where
  "unmatched_of [] = []"
| "unmatched_of (Unmatched c # ps) = c # unmatched_of ps"
| "unmatched_of (Matched m caps # ps) = unmatched_of ps"

definition matchAll :: "regex \<Rightarrow> jsstring \<Rightarrow> (jsstring \<times> captures) list" where
  "matchAll r s = matches_of (scan r s)"

text \<open>\<open>s.replace(r, '')\<close> for a global pattern \<open>r\<close>.\<close>

definition replace_empty :: "regex \<Rightarrow> jsstring \<Rightarrow> jsstring" where
  "replace_empty r s = unmatched_of (scan r s)"

text \<open>\<open>match[n]\<close>: a group that took no part in the match reads as the empty text here.\<close>

definition capture :: "(jsstring \<times> captures) \<Rightarrow> nat \<Rightarrow> jsstring" where
  "capture m n = (case snd m n of None \<Rightarrow> [] | Some t \<Rightarrow> t)"

section \<open>Numbers\<close>

text \<open>
  A JavaScript number is an IEEE 754 binary64 value: NaN, an infinity, negative zero, or
  a finite value (\<open>Num 0\<close> is positive zero). A finite value is kept as the rational
  number it denotes. \<open>fl\<close> rounds a rational to the nearest binary64 value, ties to the
  even significand: 53 significant bits, the least exponent -1074 (subnormals), and
  overflow to an infinity from \<open>2^1024 - 2^970\<close> on, the midpoint between the largest
  finite value and \<open>2^1024\<close>.
\<close>

datatype number = NaN | PosInf | NegInf | NegZero | Num rat

function bit_length :: "int \<Rightarrow> int" where
  "bit_length n = (if n \<le> 0 then 0 else 1 + bit_length (n div 2))"
  by pat_completeness auto
termination
  by (relation "measure nat") auto

declare bit_length.simps [simp del]

definition floor_log2 :: "rat \<Rightarrow> int" where
  "floor_log2 a =
     (if 1 \<le> a then bit_length \<lfloor>a\<rfloor> - 1 else - bit_length (\<lceil>1 / a\<rceil> - 1))"

definition pow2 :: "int \<Rightarrow> rat" where
  "pow2 e = (if 0 \<le> e then 2 ^ nat e else 1 / 2 ^ nat (- e))"

definition round_half_even :: "rat \<Rightarrow> int" where
  "round_half_even x =
     (let f = \<lfloor>x\<rfloor>; d = x - of_int f
      in if d < 1 / 2 then f else if 1 / 2 < d then f + 1 else if even f then f else f + 1)"

definition overflow_threshold :: rat where
  "overflow_threshold = 2 ^ 1024 - 2 ^ 970"

definition fl :: "rat \<Rightarrow> number" where
  "fl q =
     (if q = 0 then Num 0
      else if overflow_threshold \<le> \<bar>q\<bar> then (if q < 0 then NegInf else PosInf)
      else
        let e = max (floor_log2 \<bar>q\<bar>) (- 1022);
            u = pow2 (e - 52);
            m = round_half_even (\<bar>q\<bar> / u)
        in if m = 0 then (if q < 0 then NegZero else Num 0)
           else Num (if q < 0 then - (of_int m * u) else of_int m * u))"

definition isFinite :: "number \<Rightarrow> bool" where
  "isFinite x = (case x of Num q \<Rightarrow> True | NegZero \<Rightarrow> True | _ \<Rightarrow> False)"

text \<open>The sign bit, and the rational a finite number denotes.\<close>

definition is_negative :: "number \<Rightarrow> bool" where
  "is_negative x = (case x of Num q \<Rightarrow> q < 0 | NegZero \<Rightarrow> True | NegInf \<Rightarrow> True | _ \<Rightarrow> False)"

definition rat_of :: "number \<Rightarrow> rat" where
  "rat_of x = (case x of Num q \<Rightarrow> q | _ \<Rightarrow> 0)"

definition is_zero :: "number \<Rightarrow> bool" where
  "is_zero x = (x = Num 0 \<or> x = NegZero)"

text \<open>\<open>x * y\<close> and \<open>x + y\<close> on numbers.\<close>

definition mul :: "number \<Rightarrow> number \<Rightarrow> number" where
  "mul x y =
     (if x = NaN \<or> y = NaN then NaN
      else if isFinite x \<and> isFinite y then
        (if is_zero x \<or> is_zero y
         then (if is_negative x = is_negative y then Num 0 else NegZero)
         else fl (rat_of x * rat_of y))
      else if is_zero x \<or> is_zero y then NaN
      else if is_negative x = is_negative y then PosInf else NegInf)"

definition add :: "number \<Rightarrow> number \<Rightarrow> number" where
  "add x y =
     (if x = NaN \<or> y = NaN then NaN
      else if isFinite x \<and> isFinite y then
        (if rat_of x + rat_of y = 0
         then (if x = NegZero \<and> y = NegZero then NegZero else Num 0)
         else fl (rat_of x + rat_of y))
      else if isFinite y then x
      else if isFinite x then y
      else if x = y then x else NaN)"

text \<open>\<open>x < y\<close> and \<open>x >= y\<close>: false when an operand is NaN; the zeros are equal.\<close>

definition less :: "number \<Rightarrow> number \<Rightarrow> bool" where
  "less x y =
     (if x = NaN \<or> y = NaN then False
      else if x = PosInf \<or> y = NegInf then False
      else if x = NegInf \<or> y = PosInf then True
      else rat_of x < rat_of y)"

definition greater_eq :: "number \<Rightarrow> number \<Rightarrow> bool" where
  "greater_eq x y = (if x = NaN \<or> y = NaN then False else \<not> less x y)"

definition Math_abs :: "number \<Rightarrow> number" where
  "Math_abs x =
     (case x of NaN \<Rightarrow> NaN | PosInf \<Rightarrow> PosInf | NegInf \<Rightarrow> PosInf | NegZero \<Rightarrow> Num 0
      | Num q \<Rightarrow> Num \<bar>q\<bar>)"

text \<open>
  \<open>Math.round\<close>: the integral number closest to the argument, the one nearer to
  positive infinity when two are equally close; negative zero for an argument in
  \<open>[-0.5, 0)\<close> and for negative zero; NaN and the infinities are returned unchanged.
  For a binary64 argument the result \<open>\<lfloor>q + 1/2\<rfloor>\<close> is again a binary64 value.
\<close>

definition Math_round :: "number \<Rightarrow> number" where
  "Math_round x =
     (case x of
        Num q \<Rightarrow> (if q < 0 \<and> \<lfloor>q + 1 / 2\<rfloor> = 0 then NegZero else Num (of_int \<lfloor>q + 1 / 2\<rfloor>))
      | _ \<Rightarrow> x)"

text \<open>
  \<open>Number(s)\<close> on a signed decimal text \<open>[+-]?\d+(\.\d+)?\<close>: the binary64 value
  nearest to the decimal's mathematical value, with the sign kept on a zero. The
  program applies \<open>Number\<close> only to texts one of its digit patterns has accepted; any
  other text reads as NaN here.
\<close>

definition digits_value :: "jsstring \<Rightarrow> int" where
  "digits_value ds = foldl (\<lambda>n c. 10 * n + (int c - 48)) 0 ds"

definition decimal_value :: "jsstring \<Rightarrow> rat option" where
  "decimal_value body =
     (let ip = takeWhile is_digit body; rest = dropWhile is_digit body
      in if ip = [] then None
         else (case rest of
                 [] \<Rightarrow> Some (of_int (digits_value ip))
               | d # fs \<Rightarrow>
                   if d = 46 \<and> fs \<noteq> [] \<and> list_all is_digit fs
                   then Some (of_int (digits_value ip) + of_int (digits_value fs) / 10 ^ length fs)
                   else None))"

definition Number :: "jsstring \<Rightarrow> number" where
  "Number s =
     (let neg = (case s of [] \<Rightarrow> False | c # cs \<Rightarrow> c = 45);
          body = (case s of [] \<Rightarrow> [] | c # cs \<Rightarrow> if is_sign c then cs else s)
      in case decimal_value body of
           None \<Rightarrow> NaN
         | Some q \<Rightarrow> if q = 0 then (if neg then NegZero else Num 0) else fl (if neg then - q else q))"

section \<open>The unit table\<close>

text \<open>
  \<open>UNIT_MS\<close>, with its keys in the order of the source. It is an object literal, so a
  property read \<open>UNIT_MS[unit]\<close> that finds no own property goes on to
  \<open>Object.prototype\<close>, whose properties are functions (and the accessor
  \<open>__proto__\<close>, which yields \<open>Object.prototype\<close> itself).
\<close>

definition UNIT_MS :: "(string \<times> rat) list" where
  "UNIT_MS =
     [(''ms'', 1), (''millisecond'', 1), (''milliseconds'', 1), (''msec'', 1), (''msecs'', 1),
      (''s'', 1000), (''sec'', 1000), (''secs'', 1000), (''second'', 1000), (''seconds'', 1000),
      (''m'', 60000), (''min'', 60000), (''mins'', 60000), (''minute'', 60000),
      (''minutes'', 60000),
      (''h'', 3600000), (''hr'', 3600000), (''hrs'', 3600000), (''hour'', 3600000),
      (''hours'', 3600000),
      (''d'', 86400000), (''day'', 86400000), (''days'', 86400000)]"

definition Object_prototype :: "string list" where
  "Object_prototype =
     [''constructor'', ''hasOwnProperty'', ''isPrototypeOf'', ''propertyIsEnumerable'',
      ''toLocaleString'', ''toString'', ''valueOf'', ''__proto__'', ''__defineGetter__'',
      ''__defineSetter__'', ''__lookupGetter__'', ''__lookupSetter__'']"

datatype js_value = Undefined | Number_value number | Object_value

definition get_UNIT_MS :: "jsstring \<Rightarrow> js_value" where
  "get_UNIT_MS unit =
     (case map_of (map (\<lambda>(k, n). (ascii k, n)) UNIT_MS) unit of
        Some n \<Rightarrow> Number_value (Num n)
      | None \<Rightarrow> if unit \<in> set (map ascii Object_prototype) then Object_value else Undefined)"

text \<open>\<open>!v\<close> is \<open>\<not> truthy v\<close>; \<open>ToNumber\<close> is what \<open>*\<close> applies to an operand.\<close>

definition truthy :: "js_value \<Rightarrow> bool" where
  "truthy v =
     (case v of Undefined \<Rightarrow> False | Number_value n \<Rightarrow> n \<noteq> NaN \<and> \<not> is_zero n
      | Object_value \<Rightarrow> True)"

definition ToNumber :: "js_value \<Rightarrow> number" where
  "ToNumber v = (case v of Undefined \<Rightarrow> NaN | Number_value n \<Rightarrow> n | Object_value \<Rightarrow> NaN)"

section \<open>The patterns\<close>

text \<open>
  \<open>/^[+-]?\d+$/\<close>, \<open>/^\d+$/\<close>, \<open>/^\d+(?:\.\d+)?$/\<close> and \<open>/^[+-]?\d+(?:\.\d+)?$/\<close>
  (the anchors are in \<open>test\<close>), and
  \<open>TOKEN_REG_EX = /([+-]?\d+(?:\.\d+)?)\s*([a-zA-Z]+)/g\<close>. The parts they share,
  \<open>(?:\.\d+)?\<close>, \<open>\d+(?:\.\d+)?\<close> and \<open>[+-]?\d+(?:\.\d+)?\<close>, are named, and so is the
  token pattern's tail \<open>\s*([a-zA-Z]+)\<close>.
\<close>

definition re_fraction :: regex where
  "re_fraction = Opt (Seq (Atom Dot) (Plus Digit))"

definition re_decimal :: regex where
  "re_decimal = Seq (Plus Digit) re_fraction"

definition re_signed_decimal :: regex where
  "re_signed_decimal = Seq (Opt (Atom Sign)) re_decimal"

definition re_hours :: regex where
  "re_hours = Seq (Opt (Atom Sign)) (Plus Digit)"

definition re_minutes :: regex where
  "re_minutes = Plus Digit"

definition re_seconds :: regex where
  "re_seconds = re_decimal"

definition re_unitless :: regex where
  "re_unitless = re_signed_decimal"

definition re_spaced_unit :: regex where
  "re_spaced_unit = Seq (Star Space) (Cap 2 (Plus Letter))"

definition TOKEN_REG_EX :: regex where
  "TOKEN_REG_EX = Seq (Cap 1 re_signed_decimal) re_spaced_unit"

section \<open>The parser\<close>

datatype error =
    Invalid_colon_duration jsstring
  | Invalid_number jsstring
  | Invalid_number_in jsstring jsstring
  | Unknown_unit jsstring jsstring
  | Could_not_fully_parse jsstring

text \<open>The text of the \<open>Error\<close> thrown; 34 is the double quote.\<close>

fun message :: "error \<Rightarrow> jsstring" where
  "message (Invalid_colon_duration raw) =
     ascii ''parseDurationMs: invalid '' @ [34] @ ascii '':'' @ [34] @ ascii '' duration ''
       @ [34] @ raw @ [34]"
| "message (Invalid_number raw) =
     ascii ''parseDurationMs: invalid number '' @ [34] @ raw @ [34]"
| "message (Invalid_number_in txt raw) =
     ascii ''parseDurationMs: invalid number '' @ [34] @ txt @ [34] @ ascii '' in ''
       @ [34] @ raw @ [34]"
| "message (Unknown_unit txt raw) =
     ascii ''parseDurationMs: unknown unit '' @ [34] @ txt @ [34] @ ascii '' in ''
       @ [34] @ raw @ [34]"
| "message (Could_not_fully_parse raw) =
     ascii ''parseDurationMs: could not fully parse '' @ [34] @ raw @ [34]"

text \<open>
  \<open>parseColonTimeToMs\<close>: \<open>None\<close> is the \<open>null\<close> it returns for an invalid text.
  \<open>colon_total\<close> is the function up to its \<open>total\<close>, and the last line rounds it.
\<close>

definition colon_total :: "jsstring \<Rightarrow> number option" where
  "colon_total s =
     (let parts = split 58 s in
      if length parts \<noteq> 2 \<and> length parts \<noteq> 3 then None
      else
        let hStr = trim (parts ! 0);
            mStr = trim (parts ! 1);
            sStr = (if length parts = 3 then Some (trim (parts ! 2)) else None)
        in
        if hStr = [] \<or> mStr = [] then None
        else if \<not> test re_hours hStr then None
        else if \<not> test re_minutes mStr then None
        else if (case sStr of None \<Rightarrow> False | Some t \<Rightarrow> \<not> test re_seconds t) then None
        else
          let sign = (if take 1 hStr = [45] then Num (- 1) else Num 1);
              hours = Math_abs (Number hStr);
              minutes = Number mStr;
              seconds = (case sStr of None \<Rightarrow> Num 0 | Some t \<Rightarrow> Number t)
          in
          if \<not> isFinite hours then None
          else if \<not> isFinite minutes then None
          else if \<not> isFinite seconds then None
          else if less minutes (Num 0) \<or> greater_eq minutes (Num 60) then None
          else if less seconds (Num 0) \<or> greater_eq seconds (Num 60) then None
          else
            Some (mul (add (add (mul hours (Num 3600000)) (mul minutes (Num 60000)))
                           (mul seconds (Num 1000)))
                      sign))"

definition parseColonTimeToMs :: "jsstring \<Rightarrow> number option" where
  "parseColonTimeToMs s =
     (case colon_total s of None \<Rightarrow> None | Some v \<Rightarrow> Some (Math_round v))"

text \<open>
  The loop over \<open>trimmed.matchAll(TOKEN_REG_EX)\<close>: the state is \<open>total\<close> and
  \<open>matchedAny\<close>; a \<open>throw\<close> ends it with the error.
\<close>

record loop_state =
  total :: number
  matchedAny :: bool

fun token_loop :: "jsstring \<Rightarrow> (jsstring \<times> captures) list \<Rightarrow> loop_state \<Rightarrow> error + loop_state" where
  "token_loop raw [] st = Inr st"
| "token_loop raw (match # rest) st =
     (let value = Number (capture match 1);
          unit = toLowerCase (capture match 2)
      in
      if \<not> isFinite value then Inl (Invalid_number_in (capture match 1) raw)
      else
        let msPer = get_UNIT_MS unit in
        if \<not> truthy msPer then Inl (Unknown_unit (capture match 2) raw)
        else token_loop raw rest
               \<lparr>total = add (total st) (mul value (ToNumber msPer)), matchedAny = True\<rparr>)"

definition parseDurationMs :: "jsstring \<Rightarrow> error + number" where
  "parseDurationMs input =
     (let raw = input;
          trimmed = trim raw
      in
      if trimmed = [] then Inr (Num 0)
      else if 58 \<in> set trimmed then
        (case parseColonTimeToMs trimmed of
           None \<Rightarrow> Inl (Invalid_colon_duration raw)
         | Some ms \<Rightarrow> Inr ms)
      else if test re_unitless trimmed then
        (let n = Number trimmed in
         if \<not> isFinite n then Inl (Invalid_number raw) else Inr (Math_round n))
      else
        (case token_loop raw (matchAll TOKEN_REG_EX trimmed) \<lparr>total = Num 0, matchedAny = False\<rparr> of
           Inl e \<Rightarrow> Inl e
         | Inr st \<Rightarrow>
             let remainder = trim (replace_empty TOKEN_REG_EX trimmed) in
             if \<not> matchedAny st then Inl (Could_not_fully_parse raw)
             else if 0 < length remainder then Inl (Could_not_fully_parse raw)
             else Inr (Math_round (total st))))"

text \<open>The dispatcher's classification of an input, by the tests it makes in order.\<close>

datatype input_class = Empty | Colon_form | Unitless | Token_list

definition classify :: "jsstring \<Rightarrow> input_class" where
  "classify input =
     (let trimmed = trim input in
      if trimmed = [] then Empty
      else if 58 \<in> set trimmed then Colon_form
      else if test re_unitless trimmed then Unitless
      else Token_list)"

text \<open>
  The number a branch of \<open>parseDurationMs\<close> holds just before its \<open>Math.round\<close>:
  \<open>total\<close> of the colon form, \<open>n\<close> of the unitless form, \<open>total\<close> of the token
  list. The empty input returns the literal 0 and rounds nothing.
\<close>

definition branch_value :: "jsstring \<Rightarrow> number option" where
  "branch_value input =
     (let trimmed = trim input in
      if trimmed = [] then None
      else if 58 \<in> set trimmed then colon_total trimmed
      else if test re_unitless trimmed then
        (let n = Number trimmed in if isFinite n then Some n else None)
      else
        (case token_loop input (matchAll TOKEN_REG_EX trimmed) \<lparr>total = Num 0, matchedAny = False\<rparr> of
           Inl e \<Rightarrow> None
         | Inr st \<Rightarrow>
             if matchedAny st \<and> trim (replace_empty TOKEN_REG_EX trimmed) = []
             then Some (total st) else None))"

section \<open>The unit predicate\<close>

text \<open>
  Modelled from the spec: \<open>isDurationUnit\<close>, which the tests and the README use and
  whose source is not among the files. The specification (4.2 and 6): a total function
  that is true iff the value exactly equals one of the canonical lowercase spellings
  of the unit table, with no case folding and no trimming. The spellings are listed in
  the specification's order.
\<close>

definition canonical_spellings :: "string list" where
  "canonical_spellings =
     [''ms'', ''msec'', ''msecs'', ''millisecond'', ''milliseconds'',
      ''s'', ''sec'', ''secs'', ''second'', ''seconds'',
      ''m'', ''min'', ''mins'', ''minute'', ''minutes'',
      ''h'', ''hr'', ''hrs'', ''hour'', ''hours'',
      ''d'', ''day'', ''days'']"

definition isDurationUnit :: "jsstring \<Rightarrow> bool" where
  "isDurationUnit v = (v \<in> set (map ascii canonical_spellings))"

section \<open>The grammar in the specification's words\<close>

text \<open>
  The specification describes the accepted texts without a pattern engine: "one or more
  digits", "optional sign", "optionally followed by \<open>.\<close> and one or more digits". The
  definitions below say that directly on lists, reading a text greedily from the left;
  each \<open>_rest\<close> function yields what is left behind the part it names.
\<close>

definition is_digits :: "jsstring \<Rightarrow> bool" where
  "is_digits s = (s \<noteq> [] \<and> list_all is_digit s)"

definition digits_rest :: "jsstring \<Rightarrow> jsstring option" where
  "digits_rest s = (if takeWhile is_digit s = [] then None else Some (dropWhile is_digit s))"

definition fraction_rest :: "jsstring \<Rightarrow> jsstring" where
  "fraction_rest s =
     (case s of
        [] \<Rightarrow> s
      | d # t \<Rightarrow> if d = 46 \<and> takeWhile is_digit t \<noteq> [] then dropWhile is_digit t else s)"

definition decimal_rest :: "jsstring \<Rightarrow> jsstring option" where
  "decimal_rest s = map_option fraction_rest (digits_rest s)"

definition strip_sign :: "jsstring \<Rightarrow> jsstring" where
  "strip_sign s = (case s of [] \<Rightarrow> [] | c # cs \<Rightarrow> if is_sign c then cs else s)"

text \<open>
  The hour segment (optional sign, digits), the seconds segment and the unitless text
  (digits, optionally a point and digits; the latter with an optional sign).
\<close>

definition is_signed_digits :: "jsstring \<Rightarrow> bool" where
  "is_signed_digits s = is_digits (strip_sign s)"

definition is_decimal :: "jsstring \<Rightarrow> bool" where
  "is_decimal s = (decimal_rest s = Some [])"

definition is_signed_decimal :: "jsstring \<Rightarrow> bool" where
  "is_signed_decimal s = is_decimal (strip_sign s)"

text \<open>
  A token at the start of a text: sign, digits, fraction, white space, letters. The
  result is the number's text, the unit's text and the text behind the token.
\<close>

definition token_at :: "jsstring \<Rightarrow> (jsstring \<times> jsstring \<times> jsstring) option" where
  "token_at s =
     (case decimal_rest (strip_sign s) of
        None \<Rightarrow> None
      | Some s3 \<Rightarrow>
          let s4 = dropWhile is_white_space s3 in
          if takeWhile is_letter s4 = [] then None
          else Some (take (length s - length s3) s, takeWhile is_letter s4,
                     dropWhile is_letter s4))"

text \<open>
  The tokens of a text, leftmost first and not overlapping, with the code units that
  belong to no token: the explicit tokenizer of the specification's design notes.
\<close>

datatype item = Skipped nat | Token jsstring jsstring

function tokenize :: "jsstring \<Rightarrow> item list" where
  "tokenize s =
     (case token_at s of
        Some (num, unit, rest) \<Rightarrow> Token num unit # tokenize rest
      | None \<Rightarrow> (case s of [] \<Rightarrow> [] | y # ys \<Rightarrow> Skipped y # tokenize ys))"
  by pat_completeness auto
termination
proof (relation "measure length")
  show "wf (measure length)" by simp
next
  fix s :: jsstring and x num y unit rest
  assume tok: "token_at s = Some x" and x: "(num, y) = x" and y: "(unit, rest) = y"
  from tok obtain s3 where
    d: "decimal_rest (strip_sign s) = Some s3" and
    r: "x = (take (length s - length s3) s, takeWhile is_letter (dropWhile is_white_space s3),
             dropWhile is_letter (dropWhile is_white_space s3))"
    by (auto simp: token_at_def Let_def split: option.splits if_splits)
  from d obtain s2 where
    s2: "digits_rest (strip_sign s) = Some s2" and s3: "s3 = fraction_rest s2"
    by (auto simp: decimal_rest_def)
  from s2 have "takeWhile is_digit (strip_sign s) \<noteq> []" and "s2 = dropWhile is_digit (strip_sign s)"
    by (auto simp: digits_rest_def split: if_splits)
  then have "length s2 < length (strip_sign s)"
    by (cases "strip_sign s") (auto simp: less_Suc_eq_le length_dropWhile_le split: if_splits)
  moreover have "length (strip_sign s) \<le> length s"
    by (auto simp: strip_sign_def split: list.splits)
  moreover have "length s3 \<le> length s2"
    unfolding s3 by (auto simp: fraction_rest_def length_dropWhile_le le_SucI split: list.splits)
  moreover have "length rest \<le> length s3"
    using r x y length_dropWhile_le[of is_letter "dropWhile is_white_space s3"]
      length_dropWhile_le[of is_white_space s3] by auto
  ultimately show "(rest, s) \<in> measure length" by simp
next
  fix s :: jsstring and y ys
  assume "s = y # ys"
  then show "(ys, s) \<in> measure length" by simp
qed

declare tokenize.simps [simp del]

fun tokens_of :: "item list \<Rightarrow> (jsstring \<times> jsstring) list" where
  "tokens_of [] = []"
| "tokens_of (Skipped c # is) = tokens_of is"
| "tokens_of (Token num unit # is) = (num, unit) # tokens_of is"

fun skipped_of :: "item list \<Rightarrow> jsstring" where
  "skipped_of [] = []"
| "skipped_of (Skipped c # is) = c # skipped_of is"
| "skipped_of (Token num unit # is) = skipped_of is"

text \<open>The multiplier of a canonical unit spelling: its entry in the unit table.\<close>

definition multiplier :: "jsstring \<Rightarrow> rat option" where
  "multiplier unit = map_of (map (\<lambda>(k, n). (ascii k, n)) UNIT_MS) unit"

definition is_canonical :: "jsstring \<Rightarrow> bool" where
  "is_canonical unit = (multiplier unit \<noteq> None)"

text \<open>
  The running total of the token list in binary64 arithmetic, from 0 and from left to
  right: \<open>value * multiplier(unit)\<close> is added for each token in turn.
\<close>

definition token_term :: "jsstring \<times> jsstring \<Rightarrow> number" where
  "token_term t =
     mul (Number (fst t))
         (case multiplier (toLowerCase (snd t)) of None \<Rightarrow> NaN | Some n \<Rightarrow> Num n)"

definition token_sum :: "(jsstring \<times> jsstring) list \<Rightarrow> number" where
  "token_sum ts = foldl (\<lambda>acc t. add acc (token_term t)) (Num 0) ts"

text \<open>
  The mathematical value of an unsigned decimal text (0 for any other text), and of a
  text with an optional sign before it.
\<close>

definition unsigned_value :: "jsstring \<Rightarrow> rat" where
  "unsigned_value s = (case decimal_value s of None \<Rightarrow> 0 | Some q \<Rightarrow> q)"

definition signed_value :: "jsstring \<Rightarrow> rat" where
  "signed_value s =
     (if take 1 s = [45] then - unsigned_value (strip_sign s) else unsigned_value (strip_sign s))"

text \<open>
  The clock time of the specification's data model: the sign, carried by the hour
  segment alone, the hours as a non-negative integer, the minutes as an integer in
  \<open>[0, 59]\<close> and the seconds as a number in \<open>[0, 60)\<close>. \<open>read_clock\<close> splits a text at
  the colons into two or three segments, trims each, and checks the patterns and the
  ranges on the mathematical values.
\<close>

record clock_time =
  negative :: bool
  hours :: int
  minutes :: int
  seconds :: rat

definition read_clock :: "jsstring \<Rightarrow> clock_time option" where
  "read_clock s =
     (case map trim (split 58 s) of
        [h, m] \<Rightarrow>
          if is_signed_digits h \<and> is_digits m \<and> digits_value m \<le> 59
          then Some \<lparr>negative = (take 1 h = [45]), hours = digits_value (strip_sign h),
                      minutes = digits_value m, seconds = 0\<rparr>
          else None
      | [h, m, sec] \<Rightarrow>
          if is_signed_digits h \<and> is_digits m \<and> digits_value m \<le> 59
             \<and> is_decimal sec \<and> unsigned_value sec < 60
          then Some \<lparr>negative = (take 1 h = [45]), hours = digits_value (strip_sign h),
                      minutes = digits_value m, seconds = unsigned_value sec\<rparr>
          else None
      | _ \<Rightarrow> None)"

text \<open>
  The total of a clock time, \<open>sign * (hours * 3600000 + minutes * 60000 + seconds * 1000)\<close>,
  in binary64 arithmetic: each of the three values is read as the binary64 number
  nearest to it, each product and sum is rounded to binary64, the sign multiplies the
  sum, and \<open>Math.round\<close> is applied once at the end.
\<close>

definition clock_total :: "clock_time \<Rightarrow> number" where
  "clock_total c =
     mul (add (add (mul (fl (of_int (hours c))) (Num 3600000))
                   (mul (fl (of_int (minutes c))) (Num 60000)))
              (mul (fl (seconds c)) (Num 1000)))
         (if negative c then Num (- 1) else Num 1)"

definition clock_ms :: "clock_time \<Rightarrow> number" where
  "clock_ms c = Math_round (clock_total c)"

section \<open>Auxiliary definitions\<close>

text \<open>A continuation that cannot go on at a digit or at a point.\<close>

definition stops :: "(jsstring \<Rightarrow> captures \<Rightarrow> 'a option) \<Rightarrow> bool" where
  "stops k = (\<forall>x xs caps. is_digit x \<or> x = 46 \<longrightarrow> k (x # xs) caps = None)"

text \<open>The continuation of \<open>test\<close>: the anchor \<open>$\<close>.\<close>

definition at_end :: "jsstring \<Rightarrow> captures \<Rightarrow> unit option" where
  "at_end rest caps = (if rest = [] then Some () else None)"

text \<open>A piece of the scan with the token pattern, read as an item of the tokenizer.\<close>

fun piece_item :: "piece \<Rightarrow> item" where
  "piece_item (Unmatched c) = Skipped c"
| "piece_item (Matched m caps) = Token (capture (m, caps) 1) (capture (m, caps) 2)"

text \<open>The digit 1 followed by \<open>n\<close> zeros: the decimal text of \<open>10^n\<close>.\<close>

definition one_and_zeros :: "nat \<Rightarrow> jsstring" where
  "one_and_zeros n = 49 # replicate n 48"

text \<open>
  The unit in the last place used for a positive \<open>q\<close> and the significand chosen.
\<close>

definition ulp_of :: "rat \<Rightarrow> rat" where
  "ulp_of q = pow2 (max (floor_log2 q) (- 1022) - 52)"

text \<open>
  The loop of \<open>token_loop\<close> on the pairs of number text and unit text that it reads
  from each match.
\<close>

fun loop_tokens :: "jsstring \<Rightarrow> (jsstring \<times> jsstring) list \<Rightarrow> loop_state \<Rightarrow> error + loop_state" where
  "loop_tokens raw [] st = Inr st"
| "loop_tokens raw ((num, unit) # rest) st =
     (if \<not> isFinite (Number num) then Inl (Invalid_number_in num raw)
      else if \<not> truthy (get_UNIT_MS (toLowerCase unit)) then Inl (Unknown_unit unit raw)
      else loop_tokens raw rest
             \<lparr>total = add (total st) (mul (Number num) (ToNumber (get_UNIT_MS (toLowerCase unit)))),
              matchedAny = True\<rparr>)"

text \<open>A token whose number is finite and whose unit is a canonical spelling.\<close>

definition token_ok :: "jsstring \<times> jsstring \<Rightarrow> bool" where
  "token_ok t = (isFinite (Number (fst t)) \<and> is_canonical (toLowerCase (snd t)))"

section \<open>Strings and patterns: lemmas\<close>


lemma dropWhile_Nil_iff: "dropWhile P s = [] \<longleftrightarrow> list_all P s"
  by (induction s) auto

lemma trim_Nil_iff: "trim s = [] \<longleftrightarrow> list_all is_white_space s"
proof
  assume "trim s = []"
  then have "\<forall>x\<in>set (dropWhile is_white_space s). is_white_space x"
    by (simp add: trim_def)
  then have "dropWhile is_white_space s = []"
    using hd_dropWhile[of is_white_space s] by (cases "dropWhile is_white_space s") auto
  then show "list_all is_white_space s" by (simp add: list_all_iff)
next
  assume "list_all is_white_space s"
  then show "trim s = []" by (auto simp: trim_def list_all_iff dest: set_dropWhileD)
qed

lemma in_class_eqs [simp]:
  "in_class Digit = is_digit" "in_class Space = is_white_space" "in_class Letter = is_letter"
  "in_class Sign = is_sign"
  by (rule ext, simp)+

lemma length_trim_le: "length (trim s) \<le> length s"
  unfolding trim_def
  using length_dropWhile_le[of is_white_space "rev (dropWhile is_white_space s)"]
    length_dropWhile_le[of is_white_space s] by simp

lemma bt_Star_det:
  assumes "\<And>x xs. in_class c x \<Longrightarrow> k (x # xs) caps = None"
  shows "bt (Star c) s caps k = k (dropWhile (in_class c) s) caps"
  using assms by (induction s) (auto split: option.splits)

lemma bt_Star_greedy:
  assumes "k (dropWhile (in_class c) s) caps = Some r"
  shows "bt (Star c) s caps k = Some r"
  using assms
proof (induction s)
  case Nil
  then show ?case by simp
next
  case (Cons x xs)
  show ?case
  proof (cases "in_class c x")
    case True
    then have "bt (Star c) xs caps k = Some r" using Cons by simp
    then show ?thesis using True by simp
  next
    case False
    then show ?thesis using Cons.prems by simp
  qed
qed

lemma bt_Plus_det:
  assumes "\<And>x xs. in_class c x \<Longrightarrow> k (x # xs) caps = None"
  shows "bt (Plus c) s caps k =
    (if takeWhile (in_class c) s = [] then None else k (dropWhile (in_class c) s) caps)"
  using assms by (cases s) (auto simp: bt_Star_det)

lemma bt_Plus_greedy:
  assumes "\<And>t. k t caps \<noteq> None"
  shows "bt (Plus c) s caps k =
    (if takeWhile (in_class c) s = [] then None else k (dropWhile (in_class c) s) caps)"
proof (cases s)
  case Nil
  then show ?thesis by simp
next
  case (Cons x xs)
  obtain r where "k (dropWhile (in_class c) xs) caps = Some r" using assms by blast
  then show ?thesis using Cons by (auto simp: bt_Star_greedy)
qed

lemma bt_fraction:
  assumes "stops k"
  shows "bt re_fraction s caps k = k (fraction_rest s) caps"
proof (cases s)
  case Nil
  then show ?thesis by (simp add: re_fraction_def fraction_rest_def)
next
  case (Cons d t)
  have k: "\<And>x xs. in_class Digit x \<Longrightarrow> k (x # xs) caps = None"
    using assms by (simp add: stops_def)
  show ?thesis
  proof (cases "d = 46 \<and> takeWhile is_digit t \<noteq> []")
    case True
    then have "bt (Seq (Atom Dot) (Plus Digit)) s caps k = k (dropWhile is_digit t) caps"
      using Cons bt_Plus_det[of Digit k caps t, OF k] by simp
    moreover have "k s caps = None" using True Cons assms by (simp add: stops_def)
    ultimately show ?thesis using True Cons
      by (auto simp: re_fraction_def fraction_rest_def split: option.splits)
  next
    case False
    then have "bt (Seq (Atom Dot) (Plus Digit)) s caps k = None"
      using Cons bt_Plus_det[of Digit k caps t, OF k] by auto
    then show ?thesis using False Cons
      by (auto simp: re_fraction_def fraction_rest_def)
  qed
qed

lemma bt_decimal:
  assumes "stops k"
  shows "bt re_decimal s caps k =
    (case decimal_rest s of None \<Rightarrow> None | Some rest \<Rightarrow> k rest caps)"
proof -
  have "\<And>x xs. in_class Digit x \<Longrightarrow> bt re_fraction (x # xs) caps k = None"
  proof -
    fix x xs assume "in_class Digit x"
    then have "is_digit x" by simp
    then have "x \<noteq> 46" by (auto simp: is_digit_def)
    then have "fraction_rest (x # xs) = x # xs" by (simp add: fraction_rest_def)
    then show "bt re_fraction (x # xs) caps k = None"
      using bt_fraction[OF assms, of "x # xs" caps] assms \<open>is_digit x\<close> by (simp add: stops_def)
  qed
  then have "bt (Plus Digit) s caps (\<lambda>s' caps'. bt re_fraction s' caps' k) =
    (if takeWhile is_digit s = [] then None else bt re_fraction (dropWhile is_digit s) caps k)"
    using bt_Plus_det[of Digit "\<lambda>s' caps'. bt re_fraction s' caps' k" caps s] by simp
  then show ?thesis
    by (simp add: re_decimal_def decimal_rest_def digits_rest_def bt_fraction[OF assms])
qed


lemma bt_opt_sign:
  assumes "\<And>x xs. is_sign x \<Longrightarrow> k (x # xs) caps = None"
  shows "bt (Opt (Atom Sign)) s caps k = k (strip_sign s) caps"
proof (cases s)
  case Nil
  then show ?thesis by (simp add: strip_sign_def)
next
  case (Cons x xs)
  then show ?thesis using assms[of x xs]
    by (cases "k xs caps") (auto simp: strip_sign_def)
qed

lemma sign_not_digit: "is_sign x \<Longrightarrow> \<not> is_digit x"
  by (auto simp: is_sign_def is_digit_def)

lemma decimal_rest_sign: "is_sign x \<Longrightarrow> decimal_rest (x # xs) = None"
  by (simp add: decimal_rest_def digits_rest_def sign_not_digit)

lemma bt_signed_decimal:
  assumes "stops k"
  shows "bt re_signed_decimal s caps k =
    (case decimal_rest (strip_sign s) of None \<Rightarrow> None | Some rest \<Rightarrow> k rest caps)"
proof -
  let ?k1 = "\<lambda>s' caps'. bt re_decimal s' caps' k"
  have "\<And>x xs. is_sign x \<Longrightarrow> ?k1 (x # xs) caps = None"
    by (simp only: bt_decimal[OF assms] decimal_rest_sign option.simps)
  then have "bt (Opt (Atom Sign)) s caps ?k1 = ?k1 (strip_sign s) caps"
    by (rule bt_opt_sign)
  then show ?thesis by (simp add: re_signed_decimal_def bt_decimal[OF assms])
qed

lemma stops_at_end: "stops at_end"
  by (simp add: stops_def at_end_def)

lemma test_at_end: "test r s = (bt r s Map.empty at_end \<noteq> None)"
  by (simp add: test_def at_end_def[abs_def])

lemma test_re_minutes: "test re_minutes s = is_digits s"
proof -
  have "bt (Plus Digit) s Map.empty at_end =
    (if takeWhile is_digit s = [] then None else at_end (dropWhile is_digit s) Map.empty)"
    using bt_Plus_det[of Digit at_end Map.empty s] by (simp add: at_end_def)
  then show ?thesis
    by (cases s) (auto simp: test_at_end re_minutes_def is_digits_def at_end_def list_all_iff
        dropWhile_eq_Nil_conv split: if_splits)
qed

lemma test_re_hours: "test re_hours s = is_signed_digits s"
proof -
  let ?k1 = "\<lambda>s' caps'. bt (Plus Digit) s' caps' at_end"
  have k1: "?k1 t Map.empty \<noteq> None \<longleftrightarrow> is_digits t" for t
    using test_re_minutes[of t] by (simp add: test_at_end re_minutes_def)
  have "\<And>x xs. is_sign x \<Longrightarrow> ?k1 (x # xs) Map.empty = None"
    by (simp add: sign_not_digit)
  then have "bt (Opt (Atom Sign)) s Map.empty ?k1 = ?k1 (strip_sign s) Map.empty"
    by (rule bt_opt_sign)
  then show ?thesis using k1[of "strip_sign s"]
    by (simp add: test_at_end re_hours_def is_signed_digits_def)
qed

lemma test_re_seconds: "test re_seconds s = is_decimal s"
  using bt_decimal[OF stops_at_end, of s Map.empty]
  by (auto simp: test_at_end re_seconds_def is_decimal_def at_end_def split: option.splits if_splits)

lemma test_re_unitless: "test re_unitless s = is_signed_decimal s"
  using bt_signed_decimal[OF stops_at_end, of s Map.empty]
  by (auto simp: test_at_end re_unitless_def is_signed_decimal_def is_decimal_def at_end_def
      split: option.splits if_splits)


lemma digit_not_space: "is_digit x \<Longrightarrow> \<not> is_white_space x"
  by (auto simp: is_digit_def is_white_space_def)

lemma digit_not_letter: "is_digit x \<Longrightarrow> \<not> is_letter x"
  by (auto simp: is_digit_def is_letter_def)

lemma space_not_letter: "is_white_space x \<Longrightarrow> \<not> is_letter x"
  by (auto simp: is_white_space_def is_letter_def)

lemma dot_not_space_letter: "\<not> is_white_space 46" "\<not> is_letter 46"
  by (simp_all add: is_white_space_def is_letter_def)

lemma take_length_dropWhile: "take (length s - length (dropWhile P s)) s = takeWhile P s"
  by (induction s) (auto simp: Suc_diff_le length_dropWhile_le)

text \<open>The tail of the token pattern, behind the number: \<open>\s*([a-zA-Z]+)\<close>.\<close>

lemma bt_unit:
  "bt re_spaced_unit s caps (\<lambda>rest caps. Some (rest, caps)) =
     (let s4 = dropWhile is_white_space s in
      if takeWhile is_letter s4 = [] then None
      else Some (dropWhile is_letter s4, caps(2 \<mapsto> takeWhile is_letter s4)))"
proof -
  let ?K = "\<lambda>rest caps. Some (rest, caps :: captures)"
  let ?k2 = "\<lambda>s' caps'. bt (Cap 2 (Plus Letter)) s' caps' ?K"
  have k2: "?k2 t caps =
      (if takeWhile is_letter t = [] then None
       else Some (dropWhile is_letter t, caps(2 \<mapsto> takeWhile is_letter t)))" for t
    using bt_Plus_greedy[of "\<lambda>s' caps'. ?K s' (caps'(2 \<mapsto> take (length t - length s') t))" caps Letter t]
    by (simp add: take_length_dropWhile)
  have "\<And>x xs. in_class Space x \<Longrightarrow> ?k2 (x # xs) caps = None"
    by (simp add: space_not_letter)
  then have "bt (Star Space) s caps ?k2 = ?k2 (dropWhile (in_class Space) s) caps"
    by (rule bt_Star_det)
  then show ?thesis using k2[of "dropWhile is_white_space s"]
    by (simp add: re_spaced_unit_def Let_def)
qed

lemma bt_TOKEN_REG_EX:
  "bt TOKEN_REG_EX s Map.empty (\<lambda>rest caps. Some (rest, caps)) =
     (case token_at s of
        None \<Rightarrow> None
      | Some (num, unit, rest) \<Rightarrow> Some (rest, [1 \<mapsto> num, 2 \<mapsto> unit]))"
proof -
  let ?K = "\<lambda>rest caps. Some (rest, caps :: captures)"
  let ?k1 = "\<lambda>s' caps'. bt re_spaced_unit s'
               (caps'(1 \<mapsto> take (length s - length s') s)) ?K"
  have "stops ?k1"
    unfolding stops_def bt_unit
    by (auto simp: Let_def digit_not_space digit_not_letter dot_not_space_letter)
  then have "bt re_signed_decimal s Map.empty ?k1 =
    (case decimal_rest (strip_sign s) of None \<Rightarrow> None | Some rest \<Rightarrow> ?k1 rest Map.empty)"
    by (rule bt_signed_decimal)
  then show ?thesis
    by (auto simp: TOKEN_REG_EX_def token_at_def bt_unit Let_def split: option.splits)
qed

lemma token_at_shorter:
  assumes "token_at s = Some (num, unit, rest)"
  shows "length rest < length s"
proof -
  from assms obtain s3 where
    d: "decimal_rest (strip_sign s) = Some s3" and
    r: "rest = dropWhile is_letter (dropWhile is_white_space s3)"
    by (auto simp: token_at_def Let_def split: option.splits if_splits)
  from d obtain s2 where
    s2: "digits_rest (strip_sign s) = Some s2" and s3: "s3 = fraction_rest s2"
    by (auto simp: decimal_rest_def)
  from s2 have "takeWhile is_digit (strip_sign s) \<noteq> []" and "s2 = dropWhile is_digit (strip_sign s)"
    by (auto simp: digits_rest_def split: if_splits)
  then have "length s2 < length (strip_sign s)"
    by (cases "strip_sign s") (auto simp: less_Suc_eq_le length_dropWhile_le split: if_splits)
  moreover have "length (strip_sign s) \<le> length s"
    by (auto simp: strip_sign_def split: list.splits)
  moreover have "length s3 \<le> length s2"
    unfolding s3 by (auto simp: fraction_rest_def length_dropWhile_le le_SucI split: list.splits)
  moreover have "length rest \<le> length s3"
    using r length_dropWhile_le[of is_letter "dropWhile is_white_space s3"]
      length_dropWhile_le[of is_white_space s3] by auto
  ultimately show ?thesis by simp
qed

lemma scan_TOKEN_REG_EX:
  "scan TOKEN_REG_EX s =
     (case token_at s of
        Some (num, unit, rest) \<Rightarrow>
          Matched (take (length s - length rest) s) [1 \<mapsto> num, 2 \<mapsto> unit]
            # scan TOKEN_REG_EX rest
      | None \<Rightarrow> (case s of [] \<Rightarrow> [] | y # ys \<Rightarrow> Unmatched y # scan TOKEN_REG_EX ys))"
proof (cases "token_at s")
  case None
  then show ?thesis by (subst scan.simps) (simp add: bt_TOKEN_REG_EX)
next
  case (Some x)
  obtain num unit rest where x: "x = (num, unit, rest)" by (cases x) auto
  have "length rest < length s" using Some x token_at_shorter by blast
  then show ?thesis using Some x by (subst scan.simps) (simp add: bt_TOKEN_REG_EX)
qed

lemma scan_tokenize: "map piece_item (scan TOKEN_REG_EX s) = tokenize s"
proof (induction s rule: tokenize.induct)
  case (1 s)
  show ?case
  proof (cases "token_at s")
    case None
    show ?thesis
    proof (cases s)
      case Nil
      then show ?thesis using None
        by (subst scan_TOKEN_REG_EX, subst tokenize.simps) simp
    next
      case (Cons y ys)
      then show ?thesis using None 1(1)[OF None Cons]
        by (subst scan_TOKEN_REG_EX, subst tokenize.simps) simp
    qed
  next
    case (Some x)
    obtain num unit rest where x: "x = (num, unit, rest)" by (cases x) auto
    show ?thesis using Some x 1(2)[OF Some, of num "(unit, rest)" unit rest]
      by (subst scan_TOKEN_REG_EX, subst tokenize.simps) (simp add: capture_def)
  qed
qed

lemma tokens_of_scan:
  "map (\<lambda>m. (capture m 1, capture m 2)) (matchAll TOKEN_REG_EX s) = tokens_of (tokenize s)"
proof -
  have "map (\<lambda>m. (capture m 1, capture m 2)) (matches_of ps) = tokens_of (map piece_item ps)" for ps
    by (induction ps rule: matches_of.induct) simp_all
  then show ?thesis by (simp add: matchAll_def scan_tokenize)
qed

lemma skipped_of_scan: "replace_empty TOKEN_REG_EX s = skipped_of (tokenize s)"
proof -
  have "unmatched_of ps = skipped_of (map piece_item ps)" for ps
    by (induction ps rule: unmatched_of.induct) simp_all
  then show ?thesis by (simp add: replace_empty_def scan_tokenize)
qed


section \<open>Evaluation\<close>

lemma bit_length_0: "bit_length 0 = 0"
  by (simp add: bit_length.simps)

lemma bit_length_1: "bit_length 1 = 1"
  by (simp add: bit_length.simps)

lemma bit_length_numeral: "bit_length (numeral n) = 1 + bit_length (numeral n div 2)"
  by (subst bit_length.simps) simp

lemma floor_rat_numeral: "\<lfloor>numeral a / numeral b :: rat\<rfloor> = numeral a div numeral b"
  by (metis floor_divide_of_int_eq of_int_numeral)

lemma ceiling_rat_numeral: "\<lceil>numeral a / numeral b :: rat\<rceil> = - (- numeral a div numeral b)"
  using ceiling_divide_eq_div[of "numeral a" "numeral b"] by simp

lemma floor_minus_rat_numeral:
  "\<lfloor>- (numeral a / numeral b) :: rat\<rfloor> = - numeral a div numeral b"
  by (metis divide_minus_left floor_divide_of_int_eq of_int_neg_numeral of_int_numeral)

lemma ceiling_minus_rat_numeral:
  "\<lceil>- (numeral a / numeral b) :: rat\<rceil> = - (numeral a div numeral b)"
  using ceiling_divide_eq_div[of "- numeral a" "numeral b"] by simp

lemmas str_eval = ascii_def trim_def is_white_space_def is_digit_def is_letter_def is_sign_def
  strip_sign_def toLowerCase_def

lemmas fl_eval = fl_def overflow_threshold_def floor_log2_def pow2_def round_half_even_def Let_def
  bit_length_0 bit_length_1 bit_length_numeral floor_rat_numeral ceiling_rat_numeral
  floor_minus_rat_numeral ceiling_minus_rat_numeral

lemmas num_eval = Number_def decimal_value_def digits_value_def mul_def add_def isFinite_def
  is_zero_def rat_of_def is_negative_def less_def greater_eq_def Math_abs_def Math_round_def

lemmas grammar_eval = test_re_hours test_re_minutes test_re_seconds test_re_unitless
  is_digits_def is_signed_digits_def is_decimal_def is_signed_decimal_def decimal_rest_def
  digits_rest_def fraction_rest_def token_at_def scan_TOKEN_REG_EX

lemmas unit_eval = get_UNIT_MS_def UNIT_MS_def Object_prototype_def truthy_def ToNumber_def

lemmas parse_eval = parseDurationMs_def parseColonTimeToMs_def colon_total_def matchAll_def
  replace_empty_def capture_def

lemmas eval = str_eval fl_eval num_eval grammar_eval unit_eval parse_eval


section \<open>Texts of digits\<close>

lemma trim_id:
  assumes "s \<noteq> []" "\<not> is_white_space (hd s)" "\<not> is_white_space (last s)"
  shows "trim s = s"
proof -
  have "dropWhile is_white_space s = s" using assms by (cases s) auto
  moreover have "dropWhile is_white_space (rev s) = rev s"
    using assms by (cases "rev s") (auto simp: last_rev[symmetric] simp del: last_rev)
  ultimately show ?thesis by (simp add: trim_def)
qed

lemma digits_value_snoc: "digits_value (ds @ [c]) = 10 * digits_value ds + (int c - 48)"
  by (simp add: digits_value_def)

lemma digits_value_zeros: "digits_value (ds @ replicate n 48) = digits_value ds * 10 ^ n"
proof (induction n)
  case 0
  then show ?case by simp
next
  case (Suc n)
  have "ds @ replicate (Suc n) 48 = (ds @ replicate n 48) @ [48]"
    by (simp add: replicate_append_same)
  then show ?case using Suc by (simp only: digits_value_snoc) simp
qed

lemma one_and_zeros_digits: "list_all is_digit (one_and_zeros n)"
  by (simp add: one_and_zeros_def is_digit_def list_all_iff)

lemma digits_value_one_and_zeros: "digits_value (one_and_zeros n) = 10 ^ n"
  using digits_value_zeros[of "[49]" n] by (simp add: one_and_zeros_def digits_value_def)

lemma Number_digits:
  assumes "s \<noteq> []" "list_all is_digit s"
  shows "Number s = (if digits_value s = 0 then Num 0 else fl (of_int (digits_value s)))"
proof -
  obtain c cs where s: "s = c # cs" using assms by (cases s) auto
  have "\<not> is_sign c" "c \<noteq> 45" using assms s by (auto simp: is_sign_def is_digit_def)
  moreover have tw: "takeWhile is_digit cs = cs" and dw: "dropWhile is_digit cs = []"
    and "is_digit c" using assms s by (auto simp: list_all_iff)
  ultimately show ?thesis using s by (simp add: Number_def decimal_value_def tw dw)
qed

lemma one_and_zeros_facts:
  "one_and_zeros n \<noteq> []" "hd (one_and_zeros n) = 49" "58 \<notin> set (one_and_zeros n)"
  "\<not> is_white_space (last (one_and_zeros n))" "length (one_and_zeros n) = Suc n"
  by (auto simp: one_and_zeros_def is_white_space_def)

lemma fl_overflow: "overflow_threshold \<le> q \<Longrightarrow> fl q = PosInf"
proof -
  assume q: "overflow_threshold \<le> q"
  have "0 < overflow_threshold" by (simp add: overflow_threshold_def)
  then show ?thesis using q by (simp add: fl_def)
qed

lemma ten_309: "overflow_threshold \<le> 10 ^ 309"
  by (simp add: overflow_threshold_def)

lemma Number_one_and_zeros: "Number (one_and_zeros 309) = PosInf"
proof -
  have "Number (one_and_zeros 309) = fl (10 ^ 309)"
    using Number_digits[OF one_and_zeros_facts(1) one_and_zeros_digits, of 309]
    by (simp add: digits_value_one_and_zeros)
  then show ?thesis using fl_overflow[OF ten_309] by simp
qed

lemma trim_no_space_ends:
  assumes "\<not> is_white_space (hd (a @ b))" "\<not> is_white_space (last (a @ b))" "a \<noteq> []"
  shows "trim (a @ b) = a @ b"
  using assms by (intro trim_id) auto

lemma strip_sign_digits: "s \<noteq> [] \<Longrightarrow> list_all is_digit s \<Longrightarrow> strip_sign s = s"
  by (cases s) (auto simp: strip_sign_def is_sign_def is_digit_def)

lemma is_signed_decimal_digits: "s \<noteq> [] \<Longrightarrow> list_all is_digit s \<Longrightarrow> is_signed_decimal s"
proof -
  assume s: "s \<noteq> []" "list_all is_digit s"
  have tw: "takeWhile is_digit s = s" and dw: "dropWhile is_digit s = []"
    using s by (auto simp: list_all_iff)
  show ?thesis
    by (simp add: is_signed_decimal_def strip_sign_digits[OF s] is_decimal_def decimal_rest_def
        digits_rest_def fraction_rest_def tw dw s(1))
qed

section \<open>The unit table: lemmas\<close>

lemma canonical_spellings_are_the_keys: "set canonical_spellings = fst ` set UNIT_MS"
proof -
  have "list_all (\<lambda>x. x \<in> set (map fst UNIT_MS)) canonical_spellings"
    by (simp add: canonical_spellings_def UNIT_MS_def)
  moreover have "list_all (\<lambda>x. x \<in> set canonical_spellings) (map fst UNIT_MS)"
    by (simp add: canonical_spellings_def UNIT_MS_def)
  ultimately have "set canonical_spellings = set (map fst UNIT_MS)"
    unfolding list_all_iff by blast
  then show ?thesis by simp
qed

lemma distinct_canonical_spellings: "distinct (map ascii canonical_spellings)"
  by (simp add: canonical_spellings_def ascii_def)

lemma card_isDurationUnit: "card {v. isDurationUnit v} = 23"
proof -
  have "card (set (map ascii canonical_spellings)) = length (map ascii canonical_spellings)"
    using distinct_canonical_spellings by (rule distinct_card)
  moreover have "{v. isDurationUnit v} = set (map ascii canonical_spellings)"
    by (auto simp: isDurationUnit_def)
  moreover have "length canonical_spellings = 23" by (simp add: canonical_spellings_def)
  ultimately show ?thesis by simp
qed

lemma card_UNIT_MS: "card (fst ` set UNIT_MS) = 23"
proof -
  have "distinct (map fst UNIT_MS)" by (simp add: UNIT_MS_def)
  then have "card (set (map fst UNIT_MS)) = length (map fst UNIT_MS)" by (rule distinct_card)
  moreover have "length UNIT_MS = 23" by (simp add: UNIT_MS_def)
  ultimately show ?thesis by simp
qed

section \<open>Rounding to binary64: lemmas\<close>

lemma pow2_pos: "0 < pow2 e"
  by (simp add: pow2_def)

lemma pow2_nonneg_exp: "0 \<le> e \<Longrightarrow> pow2 e = 2 ^ nat e"
  by (simp add: pow2_def)

lemma pow2_neg_exp: "e \<le> 0 \<Longrightarrow> pow2 e = 1 / 2 ^ nat (- e)"
  by (cases "e = 0") (simp_all add: pow2_def)

lemma pow2_add: "pow2 (a + b) = pow2 a * pow2 b"
proof -
  have "pow2 e = 2 powi e" for e
    by (simp add: pow2_def power_int_def inverse_eq_divide power_divide)
  then show ?thesis by (simp add: power_int_add)
qed

lemma pow2_mono: "a \<le> b \<Longrightarrow> pow2 a \<le> pow2 b"
proof -
  assume "a \<le> b"
  then obtain n where "b = a + int n" using zle_iff_zadd by blast
  moreover have "pow2 (int n) = 2 ^ n" by (simp add: pow2_def)
  ultimately have "pow2 b = pow2 a * 2 ^ n" by (simp add: pow2_add)
  moreover have "(1::rat) \<le> 2 ^ n" by simp
  ultimately show ?thesis using pow2_pos[of a] by (simp add: mult_le_cancel_left1)
qed

lemma bit_length_bounds:
  "0 < n \<Longrightarrow> 0 < bit_length n \<and> 2 ^ nat (bit_length n - 1) \<le> n \<and> n < 2 ^ nat (bit_length n)"
proof (induction n rule: bit_length.induct)
  case (1 n)
  show ?case
  proof (cases "n = 1")
    case True
    then show ?thesis by (simp add: bit_length.simps[of 1] bit_length.simps[of 0])
  next
    case False
    then have h: "0 < n div 2" using 1(2) by simp
    have n: "\<not> n \<le> 0" using 1(2) by simp
    note ih = 1(1)[OF n h]
    let ?b = "bit_length (n div 2)"
    have b: "bit_length n = 1 + ?b" using n by (subst bit_length.simps) simp
    have b0: "0 < ?b" using ih by blast
    then have "nat ?b = Suc (nat (?b - 1))" by linarith
    then have p: "(2::int) ^ nat ?b = 2 * 2 ^ nat (?b - 1)" by simp
    have "2 * 2 ^ nat (?b - 1) \<le> 2 * (n div 2)" using ih by simp
    then have lo: "(2::int) ^ nat ?b \<le> n" using p by linarith
    have "n div 2 + 1 \<le> 2 ^ nat ?b" using ih by simp
    then have "n < 2 * 2 ^ nat ?b" by linarith
    moreover have "nat (1 + ?b) = Suc (nat ?b)" using b0 by linarith
    ultimately show ?thesis using lo ih b by simp
  qed
qed

lemma floor_log2_lower: "1 \<le> q \<Longrightarrow> pow2 (floor_log2 q) \<le> q"
proof -
  assume q: "1 \<le> q"
  then have n: "0 < \<lfloor>q\<rfloor>" by simp
  note b = bit_length_bounds[OF n]
  have "pow2 (floor_log2 q) = 2 ^ nat (bit_length \<lfloor>q\<rfloor> - 1)"
    using q b by (simp add: floor_log2_def pow2_def)
  also have "\<dots> = of_int (2 ^ nat (bit_length \<lfloor>q\<rfloor> - 1))" by simp
  also have "\<dots> \<le> of_int \<lfloor>q\<rfloor>" using b by (simp only: of_int_le_iff)
  also have "\<dots> \<le> q" by simp
  finally show ?thesis .
qed

lemma floor_log2_nonpos: "0 < q \<Longrightarrow> q < 1 \<Longrightarrow> floor_log2 q \<le> 0"
proof -
  assume q: "0 < q" "q < 1"
  have "0 \<le> bit_length n" for n
    using bit_length_bounds[of n] by (cases "0 < n") (simp_all add: bit_length.simps[of n])
  then show ?thesis using q by (simp add: floor_log2_def)
qed

lemma round_half_even_ge: "of_int i \<le> x \<Longrightarrow> i \<le> round_half_even x"
proof -
  assume "of_int i \<le> x"
  then have "i \<le> \<lfloor>x\<rfloor>" by (simp add: le_floor_iff)
  then show ?thesis by (auto simp: round_half_even_def Let_def)
qed

lemma round_half_even_le: "x \<le> of_int i \<Longrightarrow> round_half_even x \<le> i"
proof (cases "x = of_int i")
  case True
  then show ?thesis by (simp add: round_half_even_def)
next
  case False
  assume "x \<le> of_int i"
  then have "x < of_int i" using False by simp
  then have "\<lfloor>x\<rfloor> < i" by (simp add: floor_less_iff)
  then show ?thesis by (auto simp: round_half_even_def Let_def)
qed

lemma fl_pos:
  assumes "0 < q" "q < overflow_threshold"
  shows "fl q = Num (of_int (round_half_even (q / ulp_of q)) * ulp_of q)"
  using assms by (auto simp: fl_def ulp_of_def Let_def)

lemma fl_pos_ge:
  assumes k: "0 < k" "of_int k \<le> q" "k \<le> 2 ^ 53" and q: "q < overflow_threshold"
  shows "of_int k \<le> of_int (round_half_even (q / ulp_of q)) * ulp_of q"
proof -
  let ?e = "max (floor_log2 q) (- 1022)"
  let ?u = "ulp_of q"
  let ?m = "round_half_even (q / ?u)"
  have q0: "0 < q" using k by (smt (verit) of_int_0_less_iff order_less_le_trans)
  have u0: "0 < ?u" by (simp add: ulp_of_def pow2_pos)
  show ?thesis
  proof (cases "?e \<le> 52")
    case True
    define j where "j = nat (52 - ?e)"
    have u: "?u = 1 / 2 ^ j" using True by (simp add: ulp_of_def pow2_neg_exp j_def)
    have "of_int (k * 2 ^ j) \<le> q / ?u" using k by (simp add: u)
    then have "k * 2 ^ j \<le> ?m" by (rule round_half_even_ge)
    then have "of_int (k * 2 ^ j) \<le> (of_int ?m :: rat)" by (simp only: of_int_le_iff)
    then have "of_int k * 2 ^ j \<le> (of_int ?m :: rat)" by simp
    then show ?thesis by (simp add: u field_simps)
  next
    case False
    then have e: "?e = floor_log2 q" "52 < floor_log2 q" by auto
    have q1: "1 \<le> q" using floor_log2_nonpos[OF q0] e by (cases "q < 1") auto
    have lo: "pow2 ?e \<le> q" using floor_log2_lower[OF q1] e by simp
    have "pow2 ?e = pow2 52 * ?u" by (simp add: ulp_of_def pow2_add[symmetric])
    then have "pow2 52 \<le> q / ?u" using lo u0 by (simp add: pos_le_divide_eq)
    moreover have "pow2 52 = of_int (2 ^ 52)" by (simp add: pow2_def)
    ultimately have "of_int (2 ^ 52) \<le> q / ?u" by simp
    then have "2 ^ 52 \<le> ?m" by (rule round_half_even_ge)
    then have "of_int (2 ^ 52) \<le> (of_int ?m :: rat)" by (simp only: of_int_le_iff)
    then have "pow2 52 * ?u \<le> of_int ?m * ?u" using u0 by (simp add: pow2_def)
    then have "pow2 ?e \<le> of_int ?m * ?u" using \<open>pow2 ?e = pow2 52 * ?u\<close> by simp
    moreover have "pow2 53 \<le> pow2 ?e" using e by (intro pow2_mono) simp
    moreover have "(of_int k :: rat) \<le> pow2 53"
    proof -
      have "(of_int k :: rat) \<le> of_int (2 ^ 53)" using k by (simp only: of_int_le_iff)
      then show ?thesis by (simp add: pow2_def)
    qed
    ultimately show ?thesis by linarith
  qed
qed

lemma fl_pos_le:
  assumes k: "0 < q" "q \<le> of_int k" "k < 2 ^ 53"
  shows "of_int (round_half_even (q / ulp_of q)) * ulp_of q \<le> of_int k"
proof -
  let ?e = "max (floor_log2 q) (- 1022)"
  let ?u = "ulp_of q"
  let ?m = "round_half_even (q / ?u)"
  have "?e \<le> 52"
  proof (rule ccontr)
    assume "\<not> ?e \<le> 52"
    then have e: "?e = floor_log2 q" "52 < floor_log2 q" by auto
    have q1: "1 \<le> q" using floor_log2_nonpos[OF k(1)] e by (cases "q < 1") auto
    have "pow2 53 \<le> pow2 (floor_log2 q)" using e by (intro pow2_mono) simp
    then have "pow2 53 \<le> q" using floor_log2_lower[OF q1] by simp
    moreover have "(of_int k :: rat) < of_int (2 ^ 53)" using k by (simp only: of_int_less_iff)
    ultimately show False using k by (simp add: pow2_def)
  qed
  define j where "j = nat (52 - ?e)"
  have u: "?u = 1 / 2 ^ j" using \<open>?e \<le> 52\<close> by (simp add: ulp_of_def pow2_neg_exp j_def)
  have "q / ?u \<le> of_int (k * 2 ^ j)" using k by (simp add: u)
  then have "?m \<le> k * 2 ^ j" by (rule round_half_even_le)
  then have "(of_int ?m :: rat) \<le> of_int (k * 2 ^ j)" by (simp only: of_int_le_iff)
  then have "(of_int ?m :: rat) \<le> of_int k * 2 ^ j" by simp
  then show ?thesis by (simp add: u field_simps)
qed

lemma small_below_overflow: "k < 2 ^ 53 \<Longrightarrow> (of_int k :: rat) < overflow_threshold"
proof -
  assume "k < 2 ^ 53"
  then have "(of_int k :: rat) < of_int (2 ^ 53)" by (simp only: of_int_less_iff)
  moreover have "(of_int (2 ^ 53) :: rat) < overflow_threshold"
    by (simp add: overflow_threshold_def)
  ultimately show ?thesis by linarith
qed

lemma fl_of_int: "0 < k \<Longrightarrow> k < 2 ^ 53 \<Longrightarrow> fl (of_int k) = Num (of_int k)"
proof -
  assume k: "0 < k" "k < 2 ^ 53"
  have q: "(0::rat) < of_int k" "(of_int k :: rat) < overflow_threshold"
    using k small_below_overflow by simp_all
  have "of_int k \<le> of_int (round_half_even (of_int k / ulp_of (of_int k))) * ulp_of (of_int k)"
    using fl_pos_ge[of k "of_int k"] k q by simp
  moreover have "of_int (round_half_even (of_int k / ulp_of (of_int k))) * ulp_of (of_int k) \<le> of_int k"
    using fl_pos_le[of "of_int k" k] k q by simp
  ultimately show ?thesis using fl_pos[OF q] by simp
qed

section \<open>Reading numbers: lemmas\<close>

lemma digits_value_nonneg_aux:
  "list_all is_digit ds \<Longrightarrow> 0 \<le> n \<Longrightarrow> 0 \<le> foldl (\<lambda>n c. 10 * n + (int c - 48)) n ds"
proof (induction ds arbitrary: n)
  case Nil
  then show ?case by simp
next
  case (Cons d ds)
  then have "0 \<le> 10 * n + (int d - 48)" by (simp add: is_digit_def)
  then show ?case using Cons by simp
qed

lemma digits_value_nonneg: "list_all is_digit ds \<Longrightarrow> 0 \<le> digits_value ds"
  using digits_value_nonneg_aux[of ds 0] by (simp add: digits_value_def)

lemma is_digits_takeWhile: "is_digits s \<Longrightarrow> takeWhile is_digit s = s \<and> dropWhile is_digit s = []"
  by (simp add: is_digits_def list_all_iff)

lemma is_digits_decimal: "is_digits s \<Longrightarrow> is_decimal s"
proof -
  assume s: "is_digits s"
  have tw: "takeWhile is_digit s = s" and dw: "dropWhile is_digit s = []"
    using is_digits_takeWhile[OF s] by simp_all
  have "s \<noteq> []" using s by (simp add: is_digits_def)
  then show ?thesis
    by (simp add: is_decimal_def decimal_rest_def digits_rest_def fraction_rest_def tw dw)
qed

lemma decimal_value_digits: "is_digits s \<Longrightarrow> decimal_value s = Some (of_int (digits_value s))"
proof -
  assume s: "is_digits s"
  have tw: "takeWhile is_digit s = s" and dw: "dropWhile is_digit s = []"
    using is_digits_takeWhile[OF s] by simp_all
  have "s \<noteq> []" using s by (simp add: is_digits_def)
  then show ?thesis by (simp add: decimal_value_def tw dw)
qed

lemma all_digits_iff:
  "takeWhile is_digit t \<noteq> [] \<and> dropWhile is_digit t = [] \<longleftrightarrow> t \<noteq> [] \<and> list_all is_digit t"
  by (cases t) (auto simp: list_all_iff)

lemma is_decimal_value: "is_decimal s \<longleftrightarrow> decimal_value s \<noteq> None"
proof (cases "takeWhile is_digit s = []")
  case True
  then show ?thesis
    by (simp add: is_decimal_def decimal_rest_def digits_rest_def decimal_value_def)
next
  case False
  show ?thesis
  proof (cases "dropWhile is_digit s")
    case Nil
    show ?thesis using False
      by (simp add: is_decimal_def decimal_rest_def digits_rest_def decimal_value_def
          fraction_rest_def Nil)
  next
    case (Cons d t)
    have "is_decimal s \<longleftrightarrow> fraction_rest (d # t) = []"
      using False by (simp add: is_decimal_def decimal_rest_def digits_rest_def Cons)
    also have "\<dots> \<longleftrightarrow> d = 46 \<and> takeWhile is_digit t \<noteq> [] \<and> dropWhile is_digit t = []"
      by (simp add: fraction_rest_def)
    also have "\<dots> \<longleftrightarrow> d = 46 \<and> t \<noteq> [] \<and> list_all is_digit t"
      using all_digits_iff[of t] by blast
    also have "\<dots> \<longleftrightarrow> decimal_value s \<noteq> None"
      using False by (simp add: decimal_value_def Let_def Cons)
    finally show ?thesis .
  qed
qed

lemma is_decimal_not_signed: "is_decimal s \<Longrightarrow> strip_sign s = s \<and> take 1 s \<noteq> [45] \<and> s \<noteq> []"
proof -
  assume "is_decimal s"
  then have "takeWhile is_digit s \<noteq> []"
    by (auto simp: is_decimal_def decimal_rest_def digits_rest_def split: if_splits)
  then obtain c cs where s: "s = c # cs" and c: "is_digit c"
    by (cases s) (auto split: if_splits)
  have "\<not> is_sign c" using c sign_not_digit by blast
  moreover have "c \<noteq> 45" using c by (simp add: is_digit_def)
  ultimately show ?thesis using s by (simp add: strip_sign_def)
qed

lemma unsigned_value_nonneg: "0 \<le> unsigned_value s"
proof -
  let ?ip = "takeWhile is_digit s"
  have ip: "0 \<le> digits_value ?ip"
    by (intro digits_value_nonneg) (auto simp: list_all_iff dest: set_takeWhileD)
  show ?thesis
  proof (cases "dropWhile is_digit s")
    case Nil
    show ?thesis using ip by (simp add: unsigned_value_def decimal_value_def Let_def Nil)
  next
    case (Cons d fs)
    show ?thesis
    proof (cases "?ip \<noteq> [] \<and> d = 46 \<and> fs \<noteq> [] \<and> list_all is_digit fs")
      case True
      then have "0 \<le> digits_value fs" by (intro digits_value_nonneg) simp
      then have "(0::rat) \<le> of_int (digits_value fs) / 10 ^ length fs" by simp
      moreover have "unsigned_value s =
          of_int (digits_value ?ip) + of_int (digits_value fs) / 10 ^ length fs"
        using True by (simp add: unsigned_value_def decimal_value_def Let_def Cons)
      ultimately show ?thesis using ip by simp
    next
      case False
      then have "decimal_value s = None" by (auto simp: decimal_value_def Let_def Cons)
      then show ?thesis by (simp add: unsigned_value_def)
    qed
  qed
qed

text \<open>\<open>Number\<close> on the texts the patterns accept.\<close>

lemma Number_signed_decimal:
  assumes "is_signed_decimal s"
  shows "Number s =
    (if unsigned_value (strip_sign s) = 0 then (if take 1 s = [45] then NegZero else Num 0)
     else fl (signed_value s))"
proof -
  have d: "decimal_value (strip_sign s) \<noteq> None"
    using assms by (simp add: is_signed_decimal_def is_decimal_value)
  then obtain q where q: "decimal_value (strip_sign s) = Some q" by blast
  have "s \<noteq> []" using d by (auto simp: strip_sign_def decimal_value_def)
  then obtain c cs where s: "s = c # cs" by (cases s) auto
  have n: "Number s = (if q = 0 then (if c = 45 then NegZero else Num 0)
                       else fl (if c = 45 then - q else q))"
    using q unfolding s Number_def strip_sign_def by simp
  have "unsigned_value (strip_sign s) = q" using q by (simp add: unsigned_value_def)
  moreover have "take 1 s = [45] \<longleftrightarrow> c = 45" using s by simp
  ultimately show ?thesis using n by (simp add: signed_value_def)
qed

lemma Number_decimal: "is_decimal s \<Longrightarrow> Number s = fl (unsigned_value s)"
proof -
  assume d: "is_decimal s"
  note n = is_decimal_not_signed[OF d]
  have "is_signed_decimal s" using d n by (simp add: is_signed_decimal_def)
  then show ?thesis using Number_signed_decimal[of s] n
    by (simp add: signed_value_def fl_def)
qed

lemma Number_digits': "is_digits s \<Longrightarrow> Number s = fl (of_int (digits_value s))"
  using Number_decimal[of s] is_digits_decimal[of s] decimal_value_digits[of s]
  by (simp add: unsigned_value_def)

lemma round_half_even_nonneg: "0 \<le> x \<Longrightarrow> 0 \<le> round_half_even x"
  using round_half_even_ge[of 0 x] by simp

lemma fl_pos_cases:
  assumes "0 < q" "q < overflow_threshold"
  shows "fl q = (if round_half_even (q / ulp_of q) = 0 then Num 0
                 else Num (of_int (round_half_even (q / ulp_of q)) * ulp_of q))"
  using assms by (simp add: fl_def ulp_of_def Let_def)

lemma fl_neg_cases:
  assumes "0 < q" "q < overflow_threshold"
  shows "fl (- q) = (if round_half_even (q / ulp_of q) = 0 then NegZero
                     else Num (- (of_int (round_half_even (q / ulp_of q)) * ulp_of q)))"
  using assms by (simp add: fl_def ulp_of_def Let_def)

lemma ulp_of_pos: "0 < ulp_of q"
  by (simp add: ulp_of_def pow2_pos)

lemma Math_abs_fl: "Math_abs (fl q) = fl \<bar>q\<bar>"
proof -
  have pos: "Math_abs (fl q) = fl q" if "0 < q" for q
  proof (cases "q < overflow_threshold")
    case True
    have "0 \<le> round_half_even (q / ulp_of q)"
      using that ulp_of_pos[of q] by (intro round_half_even_nonneg) simp
    then have "0 \<le> rat_of_int (round_half_even (q / ulp_of q)) * ulp_of q"
      using ulp_of_pos[of q] by simp
    then show ?thesis using fl_pos_cases[OF that True] by (simp add: Math_abs_def)
  next
    case False
    then show ?thesis using that by (simp add: fl_def Math_abs_def)
  qed
  have neg: "Math_abs (fl (- q)) = fl q" if "0 < q" for q
  proof (cases "q < overflow_threshold")
    case True
    have "0 \<le> round_half_even (q / ulp_of q)"
      using that ulp_of_pos[of q] by (intro round_half_even_nonneg) simp
    then have "0 \<le> rat_of_int (round_half_even (q / ulp_of q)) * ulp_of q"
      using ulp_of_pos[of q] by simp
    then show ?thesis using fl_pos_cases[OF that True] fl_neg_cases[OF that True]
      by (simp add: Math_abs_def)
  next
    case False
    then show ?thesis using that by (simp add: fl_def Math_abs_def)
  qed
  consider "q = 0" | "0 < q" | "q < 0" by linarith
  then show ?thesis
  proof cases
    case 1
    then show ?thesis by (simp add: fl_def Math_abs_def)
  next
    case 2
    then show ?thesis using pos[of q] by simp
  next
    case 3
    then show ?thesis using neg[of "- q"] by simp
  qed
qed

lemma Math_abs_Number_signed_digits:
  assumes "is_signed_digits s"
  shows "Math_abs (Number s) = fl (of_int (digits_value (strip_sign s)))"
proof -
  have d: "is_digits (strip_sign s)" using assms by (simp add: is_signed_digits_def)
  then have sd: "is_signed_decimal s" by (simp add: is_signed_decimal_def is_digits_decimal)
  have v: "unsigned_value (strip_sign s) = of_int (digits_value (strip_sign s))"
    using decimal_value_digits[OF d] by (simp add: unsigned_value_def)
  have nn: "0 \<le> digits_value (strip_sign s)"
    using d by (intro digits_value_nonneg) (simp add: is_digits_def)
  show ?thesis
  proof (cases "digits_value (strip_sign s) = 0")
    case True
    then show ?thesis using Number_signed_decimal[OF sd] v
      by (simp add: Math_abs_def fl_def)
  next
    case False
    then have "Number s = fl (signed_value s)"
      using Number_signed_decimal[OF sd] v by simp
    moreover have "\<bar>signed_value s\<bar> = of_int (digits_value (strip_sign s))"
      using nn v by (simp add: signed_value_def)
    ultimately show ?thesis by (simp add: Math_abs_fl)
  qed
qed

lemma isFinite_fl: "isFinite (fl q) \<longleftrightarrow> \<bar>q\<bar> < overflow_threshold"
proof -
  have "0 < overflow_threshold" by (simp add: overflow_threshold_def)
  then show ?thesis by (auto simp: fl_def isFinite_def Let_def)
qed

lemma fl_nonneg: "0 \<le> q \<Longrightarrow> \<not> less (fl q) (Num 0)"
proof (cases "q = 0")
  case True
  then show ?thesis by (simp add: fl_def less_def rat_of_def)
next
  case False
  assume "0 \<le> q"
  then have q: "0 < q" using False by simp
  show ?thesis
  proof (cases "q < overflow_threshold")
    case True
    have "0 \<le> round_half_even (q / ulp_of q)"
      using q ulp_of_pos[of q] by (intro round_half_even_nonneg) simp
    then have "0 \<le> rat_of_int (round_half_even (q / ulp_of q)) * ulp_of q"
      using ulp_of_pos[of q] by simp
    then show ?thesis using fl_pos_cases[OF q True] by (simp add: less_def rat_of_def)
  next
    case False
    then show ?thesis using q by (simp add: fl_def less_def)
  qed
qed

lemma fl_ge_60: "60 \<le> q \<Longrightarrow> greater_eq (fl q) (Num 60)"
proof (cases "q < overflow_threshold")
  case True
  assume q: "60 \<le> q"
  have "of_int 60 \<le> of_int (round_half_even (q / ulp_of q)) * ulp_of q"
    using fl_pos_ge[of 60 q] q True by simp
  moreover have "fl q = Num (of_int (round_half_even (q / ulp_of q)) * ulp_of q)"
    using fl_pos[of q] q True by simp
  ultimately show ?thesis by (simp add: greater_eq_def less_def rat_of_def)
next
  case False
  assume "60 \<le> q"
  then show ?thesis using False by (simp add: fl_def greater_eq_def less_def)
qed

lemma fl_small_int:
  "0 \<le> k \<Longrightarrow> k < 2 ^ 53 \<Longrightarrow> fl (of_int k) = Num (of_int k)"
  using fl_of_int[of k] by (cases "k = 0") (simp_all add: fl_def)

section \<open>The colon form: lemmas\<close>

lemma fl_not_NaN: "fl q \<noteq> NaN"
  by (simp add: fl_def Let_def)

lemma split_no_sep: "sep \<notin> set s \<Longrightarrow> split sep s = [s]"
  by (induction s) auto

lemma split_append: "sep \<notin> set a \<Longrightarrow> split sep (a @ sep # b) = a # split sep b"
  by (induction a) auto

lemma length_split_one: "length (split sep s) = 1 \<Longrightarrow> sep \<notin> set s"
proof (induction s)
  case Nil
  then show ?case by simp
next
  case (Cons c cs)
  have ne: "split sep cs \<noteq> []" by (cases cs) (auto split: list.splits)
  show ?case
  proof (cases "c = sep")
    case True
    then show ?thesis using Cons.prems ne by simp
  next
    case False
    then have "length (split sep cs) = 1" using Cons.prems ne
      by (cases "split sep cs") auto
    then show ?thesis using Cons.IH False by simp
  qed
qed

text \<open>The checks and the total of \<open>colon_total\<close> on segments that are already trimmed.\<close>

lemma colon_hours:
  assumes "is_signed_digits h"
  shows "Math_abs (Number h) = fl (of_int (digits_value (strip_sign h)))"
    and "isFinite (Math_abs (Number h)) \<longleftrightarrow>
           of_int (digits_value (strip_sign h)) < overflow_threshold"
    and "h \<noteq> []"
proof -
  show a: "Math_abs (Number h) = fl (of_int (digits_value (strip_sign h)))"
    using assms by (rule Math_abs_Number_signed_digits)
  have "0 \<le> digits_value (strip_sign h)"
    using assms by (intro digits_value_nonneg) (simp add: is_signed_digits_def is_digits_def)
  then have "\<bar>rat_of_int (digits_value (strip_sign h))\<bar> = of_int (digits_value (strip_sign h))"
    by simp
  then show "isFinite (Math_abs (Number h)) \<longleftrightarrow>
           of_int (digits_value (strip_sign h)) < overflow_threshold"
    using a isFinite_fl[of "of_int (digits_value (strip_sign h))"] by simp
  show "h \<noteq> []" using assms by (auto simp: is_signed_digits_def is_digits_def strip_sign_def)
qed

lemma colon_minutes:
  assumes "is_digits m"
  shows "m \<noteq> []"
    and "digits_value m \<le> 59 \<Longrightarrow> Number m = Num (of_int (digits_value m))"
    and "isFinite (Number m) \<and> \<not> less (Number m) (Num 0) \<and> \<not> greater_eq (Number m) (Num 60)
           \<longleftrightarrow> digits_value m \<le> 59"
proof -
  show "m \<noteq> []" using assms by (simp add: is_digits_def)
  have n: "Number m = fl (of_int (digits_value m))" using assms by (rule Number_digits')
  have nn: "0 \<le> digits_value m"
    using assms by (intro digits_value_nonneg) (simp add: is_digits_def)
  show small: "Number m = Num (of_int (digits_value m))" if "digits_value m \<le> 59"
    using n fl_small_int[of "digits_value m"] nn that by simp
  show "isFinite (Number m) \<and> \<not> less (Number m) (Num 0) \<and> \<not> greater_eq (Number m) (Num 60)
           \<longleftrightarrow> digits_value m \<le> 59"
  proof (cases "digits_value m \<le> 59")
    case True
    then show ?thesis using small nn
      by (simp add: isFinite_def less_def greater_eq_def rat_of_def)
  next
    case False
    then have "(60::rat) \<le> of_int (digits_value m)" by linarith
    then have "greater_eq (Number m) (Num 60)" using n fl_ge_60 by simp
    then show ?thesis using False by simp
  qed
qed

lemma colon_seconds:
  assumes "is_decimal t"
  shows "Number t = fl (unsigned_value t)"
    and "isFinite (Number t) \<and> \<not> less (Number t) (Num 0) \<and> \<not> greater_eq (Number t) (Num 60)
           \<longleftrightarrow> less (fl (unsigned_value t)) (Num 60)"
    and "less (fl (unsigned_value t)) (Num 60) \<Longrightarrow> unsigned_value t < 60"
proof -
  show n: "Number t = fl (unsigned_value t)" using assms by (rule Number_decimal)
  have nn: "\<not> less (fl (unsigned_value t)) (Num 0)"
    using unsigned_value_nonneg by (rule fl_nonneg)
  have "isFinite x" if "less x (Num 60)" "\<not> less x (Num 0)" for x
    using that by (cases x) (simp_all add: less_def isFinite_def)
  then show "isFinite (Number t) \<and> \<not> less (Number t) (Num 0) \<and> \<not> greater_eq (Number t) (Num 60)
           \<longleftrightarrow> less (fl (unsigned_value t)) (Num 60)"
    using n nn fl_not_NaN[of "unsigned_value t"] by (auto simp: greater_eq_def)
  show "unsigned_value t < 60" if "less (fl (unsigned_value t)) (Num 60)"
  proof (rule ccontr)
    assume "\<not> unsigned_value t < 60"
    then have "greater_eq (fl (unsigned_value t)) (Num 60)" by (intro fl_ge_60) simp
    then show False using that by (simp add: greater_eq_def split: if_splits)
  qed
qed


lemma colon_total_two:
  assumes "split 58 s = [h0, m0]"
  shows "colon_total s =
    (if is_signed_digits (trim h0) \<and> is_digits (trim m0) \<and> digits_value (trim m0) \<le> 59
        \<and> of_int (digits_value (strip_sign (trim h0))) < overflow_threshold
     then Some (clock_total \<lparr>negative = (take 1 (trim h0) = [45]),
                  hours = digits_value (strip_sign (trim h0)),
                  minutes = digits_value (trim m0), seconds = 0\<rparr>)
     else None)"
proof -
  let ?h = "trim h0" and ?m = "trim m0"
  have unfold: "colon_total s =
      (if ?h = [] \<or> ?m = [] then None
       else if \<not> is_signed_digits ?h then None
       else if \<not> is_digits ?m then None
       else if \<not> isFinite (Math_abs (Number ?h)) then None
       else if \<not> isFinite (Number ?m) then None
       else if less (Number ?m) (Num 0) \<or> greater_eq (Number ?m) (Num 60) then None
       else Some (mul (add (add (mul (Math_abs (Number ?h)) (Num 3600000))
                                (mul (Number ?m) (Num 60000)))
                           (mul (Num 0) (Num 1000)))
                      (if take 1 ?h = [45] then Num (- 1) else Num 1)))"
    by (simp add: colon_total_def assms Let_def test_re_hours test_re_minutes isFinite_def
        less_def greater_eq_def rat_of_def)
  show ?thesis
  proof (cases "is_signed_digits ?h \<and> is_digits ?m")
    case False
    then show ?thesis unfolding unfold by auto
  next
    case True
    note h = colon_hours[of ?h] and m = colon_minutes[of ?m]
    show ?thesis
    proof (cases "digits_value ?m \<le> 59 \<and>
        of_int (digits_value (strip_sign ?h)) < overflow_threshold")
      case ok: True
      have "Number ?m = fl (of_int (digits_value ?m))" using True by (simp add: Number_digits')
      then show ?thesis unfolding unfold using True ok h m
        by (simp add: clock_total_def fl_def[of 0])
    next
      case bad: False
      then show ?thesis unfolding unfold using True h(2) m(3) by auto
    qed
  qed
qed

lemma colon_total_three:
  assumes "split 58 s = [h0, m0, s0]"
  shows "colon_total s =
    (if is_signed_digits (trim h0) \<and> is_digits (trim m0) \<and> digits_value (trim m0) \<le> 59
        \<and> is_decimal (trim s0)
        \<and> of_int (digits_value (strip_sign (trim h0))) < overflow_threshold
        \<and> less (fl (unsigned_value (trim s0))) (Num 60)
     then Some (clock_total \<lparr>negative = (take 1 (trim h0) = [45]),
                  hours = digits_value (strip_sign (trim h0)),
                  minutes = digits_value (trim m0), seconds = unsigned_value (trim s0)\<rparr>)
     else None)"
proof -
  let ?h = "trim h0" and ?m = "trim m0" and ?s = "trim s0"
  have unfold: "colon_total s =
      (if ?h = [] \<or> ?m = [] then None
       else if \<not> is_signed_digits ?h then None
       else if \<not> is_digits ?m then None
       else if \<not> is_decimal ?s then None
       else if \<not> isFinite (Math_abs (Number ?h)) then None
       else if \<not> isFinite (Number ?m) then None
       else if \<not> isFinite (Number ?s) then None
       else if less (Number ?m) (Num 0) \<or> greater_eq (Number ?m) (Num 60) then None
       else if less (Number ?s) (Num 0) \<or> greater_eq (Number ?s) (Num 60) then None
       else Some (mul (add (add (mul (Math_abs (Number ?h)) (Num 3600000))
                                (mul (Number ?m) (Num 60000)))
                           (mul (Number ?s) (Num 1000)))
                      (if take 1 ?h = [45] then Num (- 1) else Num 1)))"
    by (simp add: colon_total_def assms Let_def test_re_hours test_re_minutes test_re_seconds)
  show ?thesis
  proof (cases "is_signed_digits ?h \<and> is_digits ?m \<and> is_decimal ?s")
    case False
    then show ?thesis unfolding unfold by auto
  next
    case True
    note h = colon_hours[of ?h] and m = colon_minutes[of ?m] and sec = colon_seconds[of ?s]
    show ?thesis
    proof (cases "digits_value ?m \<le> 59 \<and>
        of_int (digits_value (strip_sign ?h)) < overflow_threshold \<and>
        less (fl (unsigned_value ?s)) (Num 60)")
      case ok: True
      have "Number ?m = fl (of_int (digits_value ?m))" using True by (simp add: Number_digits')
      then show ?thesis unfolding unfold using True ok h m sec(1,2)
        by (simp add: clock_total_def)
    next
      case bad: False
      then show ?thesis unfolding unfold using True h(2) m(3) sec(2) by auto
    qed
  qed
qed

lemma read_clock_None: "read_clock s = None \<Longrightarrow> colon_total s = None"
proof -
  assume r: "read_clock s = None"
  consider (two) h0 m0 where "split 58 s = [h0, m0]"
    | (three) h0 m0 s0 where "split 58 s = [h0, m0, s0]"
    | (other) "length (split 58 s) \<noteq> 2" "length (split 58 s) \<noteq> 3"
  proof (cases "split 58 s")
    case Nil
    then show ?thesis using other by simp
  next
    case l1: (Cons a as)
    show ?thesis
    proof (cases as)
      case Nil
      then show ?thesis using other l1 by simp
    next
      case l2: (Cons b bs)
      show ?thesis
      proof (cases bs)
        case Nil
        then show ?thesis using two l1 l2 by simp
      next
        case l3: (Cons c cs)
        then show ?thesis using three[of a b c] other l1 l2 by (cases cs) simp_all
      qed
    qed
  qed
  then show ?thesis
  proof cases
    case two
    then show ?thesis using r colon_total_two[OF two]
      by (auto simp: read_clock_def split: if_splits)
  next
    case three
    have "unsigned_value (trim s0) < 60" if "less (fl (unsigned_value (trim s0))) (Num 60)"
      "is_decimal (trim s0)"
      using that colon_seconds(3) by blast
    then show ?thesis using r colon_total_three[OF three]
      by (auto simp: read_clock_def three split: if_splits)
  next
    case other
    then show ?thesis by (simp add: colon_total_def Let_def)
  qed
qed

lemma read_clock_Some:
  assumes "read_clock s = Some c"
  shows "colon_total s =
    (if of_int (hours c) < overflow_threshold \<and> less (fl (seconds c)) (Num 60)
     then Some (clock_total c) else None)"
proof -
  consider (two) h0 m0 where "split 58 s = [h0, m0]"
    | (three) h0 m0 s0 where "split 58 s = [h0, m0, s0]"
    using assms by (auto simp: read_clock_def split: list.splits)
  then show ?thesis
  proof cases
    case two
    have "less (fl 0) (Num 60)" by (simp add: fl_def less_def rat_of_def)
    then show ?thesis using assms colon_total_two[OF two]
      by (auto simp: read_clock_def two split: if_splits)
  next
    case three
    then show ?thesis using assms colon_total_three[OF three]
      by (auto simp: read_clock_def three split: if_splits)
  qed
qed

lemma read_clock_has_colon: "read_clock s = Some c \<Longrightarrow> 58 \<in> set s"
proof (rule ccontr)
  assume "read_clock s = Some c" "58 \<notin> set s"
  then show False using split_no_sep[of 58 s] by (simp add: read_clock_def)
qed

lemma parseDurationMs_colon:
  assumes "58 \<in> set (trim raw)"
  shows "parseDurationMs raw =
    (case parseColonTimeToMs (trim raw) of
       None \<Rightarrow> Inl (Invalid_colon_duration raw) | Some ms \<Rightarrow> Inr ms)"
proof -
  have "trim raw \<noteq> []" using assms by auto
  then show ?thesis using assms by (simp add: parseDurationMs_def Let_def)
qed


lemma one_and_zeros_colon:
  "trim (one_and_zeros n @ ascii '':00'') = one_and_zeros n @ ascii '':00''"
  "split 58 (one_and_zeros n @ ascii '':00'') = [one_and_zeros n, ascii ''00'']"
  "trim (one_and_zeros n) = one_and_zeros n"
  "is_signed_digits (one_and_zeros n)"
  "digits_value (strip_sign (one_and_zeros n)) = 10 ^ n"
  "take (Suc 0) (one_and_zeros n) \<noteq> [45]"
proof -
  show "trim (one_and_zeros n @ ascii '':00'') = one_and_zeros n @ ascii '':00''"
    by (intro trim_id) (simp_all add: one_and_zeros_def ascii_def is_white_space_def)
  have "split 58 (one_and_zeros n @ 58 # ascii ''00'') = one_and_zeros n # split 58 (ascii ''00'')"
    using one_and_zeros_facts(3) by (rule split_append)
  then show "split 58 (one_and_zeros n @ ascii '':00'') = [one_and_zeros n, ascii ''00'']"
    by (simp add: ascii_def)
  show "trim (one_and_zeros n) = one_and_zeros n"
    using trim_id[of "one_and_zeros n"] one_and_zeros_facts[of n] by (simp add: is_white_space_def)
  have s: "strip_sign (one_and_zeros n) = one_and_zeros n"
    using one_and_zeros_facts(1) one_and_zeros_digits by (rule strip_sign_digits)
  show "is_signed_digits (one_and_zeros n)"
    using one_and_zeros_facts(1)[of n] one_and_zeros_digits[of n]
    by (simp add: is_signed_digits_def s is_digits_def)
  show "digits_value (strip_sign (one_and_zeros n)) = 10 ^ n"
    by (simp add: s digits_value_one_and_zeros)
  show "take (Suc 0) (one_and_zeros n) \<noteq> [45]" by (simp add: one_and_zeros_def)
qed

lemmas clock_eval = read_clock_def clock_ms_def clock_total_def unsigned_value_def
  signed_value_def

section \<open>The token list: lemmas\<close>

lemma token_loop_tokens:
  "token_loop raw ms st = loop_tokens raw (map (\<lambda>m. (capture m 1, capture m 2)) ms) st"
  by (induction ms arbitrary: st) (simp_all add: Let_def)

lemma token_loop_tokenize:
  "token_loop raw (matchAll TOKEN_REG_EX s) st = loop_tokens raw (tokens_of (tokenize s)) st"
  by (simp only: token_loop_tokens tokens_of_scan)

text \<open>What the unit table yields for a canonical spelling, and for any other text.\<close>

lemma multiplier_values:
  "multiplier u = Some n \<Longrightarrow> n \<in> {1, 1000, 60000, 3600000, 86400000}"
proof -
  assume "multiplier u = Some n"
  then have "(u, n) \<in> set (map (\<lambda>(k, n). (ascii k, n)) UNIT_MS)"
    unfolding multiplier_def by (rule map_of_SomeD)
  then have "n \<in> snd ` set UNIT_MS" by force
  then show ?thesis by (simp add: UNIT_MS_def)
qed

lemma get_UNIT_MS_canonical:
  assumes "multiplier u = Some n"
  shows "get_UNIT_MS u = Number_value (Num n)" and "truthy (Number_value (Num n))"
  using assms multiplier_values[of u n]
  by (auto simp: get_UNIT_MS_def multiplier_def truthy_def is_zero_def)

lemma get_UNIT_MS_unknown:
  "multiplier u = None \<Longrightarrow> u \<notin> set (map ascii Object_prototype) \<Longrightarrow> \<not> truthy (get_UNIT_MS u)"
  by (simp add: get_UNIT_MS_def multiplier_def truthy_def)

lemma get_UNIT_MS_inherited:
  "multiplier u = None \<Longrightarrow> u \<in> set (map ascii Object_prototype) \<Longrightarrow>
     truthy (get_UNIT_MS u) \<and> ToNumber (get_UNIT_MS u) = NaN"
  by (simp add: get_UNIT_MS_def multiplier_def truthy_def ToNumber_def)

text \<open>Of the names \<open>Object.prototype\<close> has, only one is made of lowercase letters.\<close>

lemma toLowerCase_letters:
  "list_all is_letter u \<Longrightarrow> list_all (\<lambda>c. 97 \<le> c \<and> c \<le> 122) (toLowerCase u)"
  by (induction u) (auto simp: toLowerCase_def is_letter_def)

lemma inherited_lowercase:
  assumes "list_all (\<lambda>c. 97 \<le> c \<and> c \<le> 122) u"
  shows "u \<in> set (map ascii Object_prototype) \<longleftrightarrow> u = ascii ''constructor''"
proof -
  have "list_all (\<lambda>w. w = ascii ''constructor'' \<or> \<not> list_all (\<lambda>c. 97 \<le> c \<and> c \<le> 122) w)
          (map ascii Object_prototype)"
    by (simp add: Object_prototype_def ascii_def)
  then have "u \<in> set (map ascii Object_prototype) \<Longrightarrow> u = ascii ''constructor''"
    using assms unfolding list_all_iff by blast
  moreover have "ascii ''constructor'' \<in> set (map ascii Object_prototype)"
    by (simp add: Object_prototype_def)
  ultimately show ?thesis by blast
qed

lemma constructor_not_canonical: "multiplier (ascii ''constructor'') = None"
  by (simp add: multiplier_def UNIT_MS_def ascii_def)


lemma loop_tokens_ok:
  "list_all token_ok ts \<Longrightarrow>
     loop_tokens raw ts st =
       Inr \<lparr>total = foldl (\<lambda>acc t. add acc (token_term t)) (total st) ts,
            matchedAny = (matchedAny st \<or> ts \<noteq> [])\<rparr>"
proof (induction ts arbitrary: st)
  case Nil
  then show ?case by simp
next
  case (Cons t ts)
  obtain num unit where t: "t = (num, unit)" by (cases t) auto
  obtain n where n: "multiplier (toLowerCase unit) = Some n"
    using Cons.prems t by (auto simp: token_ok_def is_canonical_def)
  have "isFinite (Number num)" using Cons.prems t by (simp add: token_ok_def)
  then show ?case using Cons t n
    by (simp add: token_term_def ToNumber_def get_UNIT_MS_canonical[OF n])
qed

lemma loop_tokens_append:
  "list_all token_ok pre \<Longrightarrow>
     loop_tokens raw (pre @ ts) st =
       loop_tokens raw ts \<lparr>total = foldl (\<lambda>acc t. add acc (token_term t)) (total st) pre,
                            matchedAny = (matchedAny st \<or> pre \<noteq> [])\<rparr>"
proof (induction pre arbitrary: st)
  case Nil
  then show ?case by (cases st) simp
next
  case (Cons t pre)
  obtain num unit where t: "t = (num, unit)" by (cases t) auto
  obtain n where n: "multiplier (toLowerCase unit) = Some n"
    using Cons.prems t by (auto simp: token_ok_def is_canonical_def)
  have "isFinite (Number num)" using Cons.prems t by (simp add: token_ok_def)
  then show ?case using Cons t n
    by (simp add: token_term_def ToNumber_def get_UNIT_MS_canonical[OF n])
qed

text \<open>The texts of a token: a signed decimal and letters, no longer than the input.\<close>

lemma decimal_rest_prefix:
  assumes "decimal_rest x = Some r"
  shows "is_decimal (take (length x - length r) x) \<and> length r \<le> length x
         \<and> drop (length x - length r) x = r"
proof -
  let ?ip = "takeWhile is_digit x" and ?d = "dropWhile is_digit x"
  have ip: "?ip \<noteq> []" and r: "r = fraction_rest ?d"
    using assms by (auto simp: decimal_rest_def digits_rest_def split: if_splits)
  have x: "x = ?ip @ ?d" by simp
  have dip: "is_digits ?ip"
    using ip by (auto simp: is_digits_def list_all_iff dest: set_takeWhileD)
  show ?thesis
  proof (cases "\<exists>t. ?d = 46 # t \<and> takeWhile is_digit t \<noteq> []")
    case True
    then obtain t where t: "?d = 46 # t" "takeWhile is_digit t \<noteq> []" by blast
    let ?f = "takeWhile is_digit t"
    have r': "r = dropWhile is_digit t" using r t by (simp add: fraction_rest_def)
    have x': "x = (?ip @ 46 # ?f) @ r" using x t r' by simp
    have len: "length x - length r = length (?ip @ 46 # ?f)"
      using arg_cong[OF x', of length] by simp
    have pre: "take (length x - length r) x = ?ip @ 46 # ?f"
      unfolding len by (subst x') simp
    have "takeWhile is_digit (?ip @ 46 # ?f) = ?ip"
      by (subst takeWhile_append2) (auto simp: is_digit_def dest: set_takeWhileD)
    moreover have "dropWhile is_digit (?ip @ 46 # ?f) = 46 # ?f"
      by (subst dropWhile_append2) (auto simp: is_digit_def dest: set_takeWhileD)
    moreover have "dropWhile is_digit ?f = []" "takeWhile is_digit ?f = ?f"
      by (auto dest: set_takeWhileD)
    ultimately have "is_decimal (?ip @ 46 # ?f)"
      using ip t by (simp add: is_decimal_def decimal_rest_def digits_rest_def fraction_rest_def)
    moreover have "drop (length x - length r) x = r"
      unfolding len by (subst x') simp
    moreover have "length r \<le> length x" using arg_cong[OF x', of length] by simp
    ultimately show ?thesis using pre by simp
  next
    case False
    have "fraction_rest ?d = ?d"
    proof (cases ?d)
      case Nil
      show ?thesis unfolding Nil by (simp add: fraction_rest_def)
    next
      case (Cons d t)
      then have "\<not> (d = 46 \<and> takeWhile is_digit t \<noteq> [])" using False by blast
      then show ?thesis unfolding Cons by (auto simp: fraction_rest_def)
    qed
    then have r': "r = ?d" using r by simp
    have "length ?ip + length ?d = length x"
      by (metis length_append takeWhile_dropWhile_id)
    then have len: "length x - length r = length ?ip"
      using r' by simp
    have "take (length ?ip) x = ?ip" by (simp add: takeWhile_eq_take[symmetric])
    then have "take (length x - length r) x = ?ip" using len by simp
    moreover have "is_decimal ?ip" using dip by (rule is_digits_decimal)
    moreover have "drop (length ?ip) x = ?d" by (simp add: dropWhile_eq_drop[symmetric])
    then have "drop (length x - length r) x = r" using len r' by simp
    moreover have "length r \<le> length x" unfolding r' by (rule length_dropWhile_le)
    ultimately show ?thesis by simp
  qed
qed

section \<open>The dispatcher: lemmas\<close>

lemma digits_value_bound_aux:
  "list_all is_digit ds \<Longrightarrow>
     foldl (\<lambda>n c. 10 * n + (int c - 48)) n ds < (n + 1) * 10 ^ length ds"
proof (induction ds arbitrary: n)
  case Nil
  then show ?case by simp
next
  case (Cons d ds)
  then have d: "int d - 48 \<le> 9" by (simp add: is_digit_def)
  have "list_all is_digit ds" using Cons.prems by simp
  then have "foldl (\<lambda>n c. 10 * n + (int c - 48)) (10 * n + (int d - 48)) ds
      < (10 * n + (int d - 48) + 1) * 10 ^ length ds"
    by (rule Cons.IH)
  also have "\<dots> \<le> (10 * n + 10) * 10 ^ length ds"
    using d by (intro mult_right_mono) simp_all
  finally show ?case by (simp add: algebra_simps)
qed

lemma digits_value_bound: "list_all is_digit ds \<Longrightarrow> digits_value ds < 10 ^ length ds"
  using digits_value_bound_aux[of ds 0] by (simp add: digits_value_def)

lemma unsigned_value_bound: "unsigned_value x < 10 ^ length x"
proof -
  let ?ip = "takeWhile is_digit x"
  have dip: "list_all is_digit ?ip" by (auto simp: list_all_iff dest: set_takeWhileD)
  have ip: "digits_value ?ip + 1 \<le> 10 ^ length ?ip"
    using digits_value_bound[OF dip] by simp
  have lip: "length ?ip \<le> length x" by (rule length_takeWhile_le)
  have pw: "(10::rat) ^ length ?ip \<le> 10 ^ length x"
    using lip by (intro power_increasing) simp_all
  have ip': "rat_of_int (digits_value ?ip) + 1 \<le> 10 ^ length ?ip"
  proof -
    have "rat_of_int (digits_value ?ip + 1) \<le> rat_of_int (10 ^ length ?ip)"
      using ip by (simp only: of_int_le_iff)
    then show ?thesis by simp
  qed
  show ?thesis
  proof (cases "decimal_value x")
    case None
    then show ?thesis by (simp add: unsigned_value_def)
  next
    case (Some q)
    show ?thesis
    proof (cases "dropWhile is_digit x")
      case Nil
      have "q = of_int (digits_value ?ip)"
        using Some by (auto simp: decimal_value_def Let_def Nil split: if_splits)
      then have "unsigned_value x = of_int (digits_value ?ip)"
        using Some by (simp add: unsigned_value_def)
      then show ?thesis using ip' pw by linarith
    next
      case (Cons d fs)
      have f: "list_all is_digit fs" and q: "q = of_int (digits_value ?ip) + of_int (digits_value fs) / 10 ^ length fs"
        using Some by (auto simp: decimal_value_def Let_def Cons split: if_splits)
      have "rat_of_int (digits_value fs) < rat_of_int (10 ^ length fs)"
        using digits_value_bound[OF f] by (simp only: of_int_less_iff)
      then have "rat_of_int (digits_value fs) / 10 ^ length fs < 1" by simp
      moreover have "unsigned_value x =
          of_int (digits_value ?ip) + of_int (digits_value fs) / 10 ^ length fs"
        using Some q by (simp add: unsigned_value_def)
      ultimately show ?thesis using ip' pw by linarith
    qed
  qed
qed

lemma ten_308: "(10::rat) ^ 308 < overflow_threshold"
  by (simp add: overflow_threshold_def)

lemma short_text_finite:
  assumes "length t \<le> 308"
  shows "\<bar>signed_value t\<bar> < overflow_threshold"
proof -
  have "length (strip_sign t) \<le> length t" by (auto simp: strip_sign_def split: list.splits)
  then have "(10::rat) ^ length (strip_sign t) \<le> 10 ^ 308"
    using assms by (intro power_increasing) simp_all
  then have "unsigned_value (strip_sign t) < overflow_threshold"
    using unsigned_value_bound[of "strip_sign t"] ten_308 by linarith
  then show ?thesis using unsigned_value_nonneg[of "strip_sign t"]
    by (simp add: signed_value_def)
qed

lemma isFinite_Number:
  "is_signed_decimal t \<Longrightarrow> isFinite (Number t) \<longleftrightarrow> \<bar>signed_value t\<bar> < overflow_threshold"
proof -
  assume d: "is_signed_decimal t"
  have z: "(0::rat) < overflow_threshold" by (simp add: overflow_threshold_def)
  show ?thesis
  proof (cases "unsigned_value (strip_sign t) = 0")
    case True
    then show ?thesis using Number_signed_decimal[OF d] z
      by (simp add: isFinite_def signed_value_def)
  next
    case False
    then show ?thesis using Number_signed_decimal[OF d] isFinite_fl by simp
  qed
qed

lemma decimal_chars: "is_decimal x \<Longrightarrow> list_all (\<lambda>c. is_digit c \<or> c = 46) x"
proof -
  assume d: "is_decimal x"
  let ?ip = "takeWhile is_digit x" and ?d = "dropWhile is_digit x"
  have f: "fraction_rest ?d = []"
    using d by (auto simp: is_decimal_def decimal_rest_def digits_rest_def split: if_splits)
  have "list_all (\<lambda>c. is_digit c \<or> c = 46) ?d"
  proof (cases ?d)
    case Nil
    show ?thesis unfolding Nil by simp
  next
    case (Cons c t)
    have "c = 46 \<and> dropWhile is_digit t = []"
      using f unfolding Cons by (auto simp: fraction_rest_def split: if_splits)
    then show ?thesis unfolding Cons by (auto simp: list_all_iff)
  qed
  moreover have "list_all (\<lambda>c. is_digit c \<or> c = 46) ?ip"
    by (auto simp: list_all_iff dest: set_takeWhileD)
  ultimately have "list_all (\<lambda>c. is_digit c \<or> c = 46) (?ip @ ?d)"
    by (simp only: list_all_append)
  then show ?thesis by simp
qed

lemma signed_decimal_no_colon: "is_signed_decimal s \<Longrightarrow> 58 \<notin> set s \<and> s \<noteq> []"
proof -
  assume d: "is_signed_decimal s"
  then have x: "list_all (\<lambda>c. is_digit c \<or> c = 46) (strip_sign s)"
    by (simp add: is_signed_decimal_def decimal_chars)
  have ne: "strip_sign s \<noteq> []"
    using d is_decimal_not_signed[of "strip_sign s"] by (simp add: is_signed_decimal_def)
  have "58 \<notin> set (strip_sign s)"
    using x by (auto simp: list_all_iff is_digit_def)
  moreover have "set s \<subseteq> set (strip_sign s) \<union> {43, 45}"
    by (cases s) (auto simp: strip_sign_def is_sign_def)
  ultimately have "58 \<notin> set s" by auto
  moreover have "s \<noteq> []" using ne by (auto simp: strip_sign_def)
  ultimately show ?thesis by simp
qed

lemma parseDurationMs_unitless:
  assumes "is_signed_decimal (trim raw)"
  shows "parseDurationMs raw =
    (if isFinite (Number (trim raw)) then Inr (Math_round (Number (trim raw)))
     else Inl (Invalid_number raw))"
    and "classify raw = Unitless"
    and "branch_value raw = (if isFinite (Number (trim raw)) then Some (Number (trim raw)) else None)"
  using assms signed_decimal_no_colon[OF assms]
  by (simp_all add: parseDurationMs_def classify_def branch_value_def Let_def test_re_unitless)

lemma classify_Token_list:
  "classify raw = Token_list \<longleftrightarrow>
     trim raw \<noteq> [] \<and> 58 \<notin> set (trim raw) \<and> \<not> is_signed_decimal (trim raw)"
  by (simp add: classify_def Let_def test_re_unitless)

lemma parseDurationMs_tokens:
  assumes "classify raw = Token_list"
  shows "parseDurationMs raw =
    (case loop_tokens raw (tokens_of (tokenize (trim raw))) \<lparr>total = Num 0, matchedAny = False\<rparr> of
       Inl e \<Rightarrow> Inl e
     | Inr st \<Rightarrow>
         if matchedAny st \<and> list_all is_white_space (skipped_of (tokenize (trim raw)))
         then Inr (Math_round (total st)) else Inl (Could_not_fully_parse raw))"
  using assms unfolding classify_Token_list
  by (auto simp: parseDurationMs_def Let_def test_re_unitless token_loop_tokenize
      skipped_of_scan trim_Nil_iff split: sum.splits)

lemma branch_value_tokens:
  assumes "classify raw = Token_list"
  shows "branch_value raw =
    (case loop_tokens raw (tokens_of (tokenize (trim raw))) \<lparr>total = Num 0, matchedAny = False\<rparr> of
       Inl e \<Rightarrow> None
     | Inr st \<Rightarrow>
         if matchedAny st \<and> list_all is_white_space (skipped_of (tokenize (trim raw)))
         then Some (total st) else None)"
  using assms unfolding classify_Token_list
  by (auto simp: branch_value_def Let_def test_re_unitless token_loop_tokenize
      skipped_of_scan trim_Nil_iff split: sum.splits)

section \<open>The tokens of a text: lemmas\<close>

lemma token_at_texts:
  assumes "token_at s = Some (num, unit, rest)"
  shows "is_signed_decimal num \<and> length num \<le> length s \<and> unit \<noteq> [] \<and> list_all is_letter unit"
proof -
  from assms obtain s3 where
    d: "decimal_rest (strip_sign s) = Some s3" and
    num: "num = take (length s - length s3) s" and
    unit: "unit = takeWhile is_letter (dropWhile is_white_space s3)" "unit \<noteq> []"
    by (auto simp: token_at_def Let_def split: option.splits if_splits)
  note p = decimal_rest_prefix[OF d]
  have u: "list_all is_letter unit"
    unfolding unit by (auto simp: list_all_iff dest: set_takeWhileD)
  have "is_signed_decimal num"
  proof (cases "\<exists>c cs. s = c # cs \<and> is_sign c")
    case True
    then obtain c cs where s: "s = c # cs" "is_sign c" by blast
    then have x: "strip_sign s = cs" by (simp add: strip_sign_def)
    have "length s3 \<le> length cs" using p x by simp
    then have "num = c # take (length cs - length s3) cs"
      unfolding num s by (simp add: Suc_diff_le)
    then have "strip_sign num = take (length cs - length s3) cs"
      using s by (simp add: strip_sign_def)
    then show ?thesis using p x by (simp add: is_signed_decimal_def)
  next
    case False
    then have x: "strip_sign s = s" by (cases s) (auto simp: strip_sign_def)
    then have "is_decimal num" using p num by simp
    then show ?thesis using is_decimal_not_signed[of num] by (simp add: is_signed_decimal_def)
  qed
  then show ?thesis using u unit num by simp
qed

lemma tokens_texts:
  "(num, unit) \<in> set (tokens_of (tokenize s)) \<Longrightarrow>
     is_signed_decimal num \<and> length num \<le> length s \<and> unit \<noteq> [] \<and> list_all is_letter unit"
proof (induction s rule: tokenize.induct)
  case (1 s)
  show ?case
  proof (cases "token_at s")
    case None
    show ?thesis
    proof (cases s)
      case Nil
      then show ?thesis using None 1(3) by (subst (asm) tokenize.simps) simp
    next
      case (Cons y ys)
      have "(num, unit) \<in> set (tokens_of (tokenize ys))"
        using None Cons 1(3) by (subst (asm) tokenize.simps) simp
      then show ?thesis using 1(1)[OF None Cons] Cons by simp
    qed
  next
    case (Some x)
    obtain n u rest where x: "x = (n, u, rest)" by (cases x) auto
    have tk: "token_at s = Some (n, u, rest)" using Some x by simp
    have "(num, unit) = (n, u) \<or> (num, unit) \<in> set (tokens_of (tokenize rest))"
      using tk 1(3) by (subst (asm) tokenize.simps) auto
    then show ?thesis
    proof
      assume "(num, unit) = (n, u)"
      then show ?thesis using token_at_texts[OF tk] by simp
    next
      assume "(num, unit) \<in> set (tokens_of (tokenize rest))"
      then have "is_signed_decimal num \<and> length num \<le> length rest \<and> unit \<noteq> []
          \<and> list_all is_letter unit"
        using 1(2)[OF Some, of n "(u, rest)" u rest] x by simp
      then show ?thesis using token_at_shorter[OF tk] by simp
    qed
  qed
qed

lemma no_tokens_all_skipped: "tokens_of (tokenize s) = [] \<Longrightarrow> skipped_of (tokenize s) = s"
proof (induction s rule: tokenize.induct)
  case (1 s)
  show ?case
  proof (cases "token_at s")
    case None
    show ?thesis
    proof (cases s)
      case Nil
      then show ?thesis using None by (subst tokenize.simps) simp
    next
      case (Cons y ys)
      have "tokens_of (tokenize ys) = []"
        using None Cons 1(3) by (subst (asm) tokenize.simps) simp
      then have "skipped_of (tokenize ys) = ys" using 1(1)[OF None Cons] by simp
      then show ?thesis using None Cons by (subst tokenize.simps) simp
    qed
  next
    case (Some x)
    obtain n u rest where x: "x = (n, u, rest)" by (cases x) auto
    have False using Some x 1(3) by (subst (asm) tokenize.simps) simp
    then show ?thesis ..
  qed
qed

lemma trim_hd: "trim s \<noteq> [] \<Longrightarrow> \<not> is_white_space (hd (trim s))"
proof -
  assume ne: "trim s \<noteq> []"
  let ?a = "dropWhile is_white_space s"
  let ?b = "dropWhile is_white_space (rev ?a)"
  have b: "?b \<noteq> []" using ne by (simp add: trim_def)
  have a: "?a \<noteq> []"
  proof
    assume "?a = []"
    then have "?b = []" by (simp only: rev.simps dropWhile.simps)
    then show False using b by simp
  qed
  have ha: "\<not> is_white_space (hd ?a)" using a by (rule hd_dropWhile)
  have "rev ?a = takeWhile is_white_space (rev ?a) @ ?b" by simp
  then have "last (rev ?a) = last ?b" using b by (metis last_appendR)
  then have "last ?b = hd ?a" using a by (simp add: last_rev)
  moreover have "hd (trim s) = last ?b" using b by (simp add: trim_def hd_rev)
  ultimately show ?thesis using ha by simp
qed

lemma covered_has_token:
  assumes "trim raw \<noteq> []" "list_all is_white_space (skipped_of (tokenize (trim raw)))"
  shows "tokens_of (tokenize (trim raw)) \<noteq> []"
proof
  assume "tokens_of (tokenize (trim raw)) = []"
  then have "skipped_of (tokenize (trim raw)) = trim raw" by (rule no_tokens_all_skipped)
  then have "list_all is_white_space (trim raw)" using assms by simp
  then have "is_white_space (hd (trim raw))" using assms(1) by (cases "trim raw") auto
  then show False using trim_hd[OF assms(1)] by simp
qed

section \<open>Errors and values of the branches: lemmas\<close>

lemma loop_tokens_error:
  "loop_tokens raw ts st = Inl e \<Longrightarrow>
     (\<exists>t u. (t, u) \<in> set ts \<and> \<not> isFinite (Number t) \<and> e = Invalid_number_in t raw) \<or>
     (\<exists>t u. (t, u) \<in> set ts \<and> \<not> truthy (get_UNIT_MS (toLowerCase u)) \<and> e = Unknown_unit u raw)"
proof (induction ts arbitrary: st)
  case Nil
  then show ?case by simp
next
  case (Cons a ts)
  obtain num unit where a: "a = (num, unit)" by (cases a) auto
  show ?case
  proof (cases "isFinite (Number num)")
    case False
    then show ?thesis using Cons.prems a by auto
  next
    case fin: True
    show ?thesis
    proof (cases "truthy (get_UNIT_MS (toLowerCase unit))")
      case False
      then show ?thesis using Cons.prems a fin by auto
    next
      case True
      then have "loop_tokens raw ts
          \<lparr>total = add (total st) (mul (Number num) (ToNumber (get_UNIT_MS (toLowerCase unit)))),
           matchedAny = True\<rparr> = Inl e"
        using Cons.prems a fin by simp
      then show ?thesis using Cons.IH a by fastforce
    qed
  qed
qed

lemma classify_cases:
  obtains (empty) "trim raw = []" "classify raw = Empty"
  | (colon) "58 \<in> set (trim raw)" "classify raw = Colon_form"
  | (unitless) "is_signed_decimal (trim raw)" "classify raw = Unitless"
  | (tokens) "classify raw = Token_list"
  by (cases "classify raw") (auto simp: classify_def Let_def test_re_unitless split: if_splits)

lemma parse_branch:
  assumes "trim raw \<noteq> []"
  shows "parseDurationMs raw = Inr r \<longleftrightarrow> (\<exists>v. branch_value raw = Some v \<and> r = Math_round v)"
proof (cases raw rule: classify_cases)
  case empty
  then show ?thesis using assms by simp
next
  case colon
  have "branch_value raw = colon_total (trim raw)"
    using colon assms by (simp add: branch_value_def Let_def)
  then show ?thesis using parseDurationMs_colon[OF colon(1)]
    by (auto simp: parseColonTimeToMs_def split: option.splits)
next
  case unitless
  show ?thesis
    using parseDurationMs_unitless(1)[OF unitless(1)] parseDurationMs_unitless(3)[OF unitless(1)]
    by auto
next
  case tokens
  show ?thesis
    unfolding parseDurationMs_tokens[OF tokens] branch_value_tokens[OF tokens]
    by (auto split: sum.splits)
qed

text \<open>Running the tokenizer on a text that is given.\<close>

lemma tokenize_Nil: "tokenize [] = []"
  by (subst tokenize.simps) (simp add: token_at_def decimal_rest_def digits_rest_def strip_sign_def)

lemma tokenize_Cons:
  "tokenize (y # ys) =
     (case token_at (y # ys) of
        Some (num, unit, rest) \<Rightarrow> Token num unit # tokenize rest
      | None \<Rightarrow> Skipped y # tokenize ys)"
  by (subst tokenize.simps) (simp split: option.splits)

lemmas token_eval = tokenize_Nil tokenize_Cons token_at_def decimal_rest_def digits_rest_def
  fraction_rest_def token_sum_def token_term_def multiplier_def is_canonical_def UNIT_MS_def

lemma token_at_one_and_zeros:
  assumes "u \<noteq> []" "list_all is_letter u"
  shows "token_at (one_and_zeros n @ u) = Some (one_and_zeros n, u, [])"
proof -
  let ?s = "one_and_zeros n @ u"
  obtain c cs where u: "u = c # cs" using assms by (cases u) auto
  have c: "\<not> is_digit c" "c \<noteq> 46" "\<not> is_white_space c" "is_letter c"
    using assms u by (auto simp: is_letter_def is_digit_def is_white_space_def)
  have s: "strip_sign ?s = ?s"
    by (simp add: one_and_zeros_def strip_sign_def is_sign_def)
  have tw: "takeWhile is_digit ?s = one_and_zeros n"
    using c one_and_zeros_digits[of n] unfolding u
    by (subst takeWhile_append2) (auto simp: list_all_iff)
  have dw: "dropWhile is_digit ?s = u"
    using c one_and_zeros_digits[of n] unfolding u
    by (subst dropWhile_append2) (auto simp: list_all_iff)
  have d: "decimal_rest (strip_sign ?s) = Some u"
    unfolding s using c one_and_zeros_facts(1)[of n]
    by (simp add: decimal_rest_def digits_rest_def tw dw) (simp add: u fraction_rest_def)
  have dws: "dropWhile is_white_space u = u" using c u by simp
  have twl: "takeWhile is_letter u = u" and dwl: "dropWhile is_letter u = []"
    using assms by (auto simp: list_all_iff)
  show ?thesis using assms(1)
    by (simp add: token_at_def d dws twl dwl)
qed

lemma tokenize_one_and_zeros:
  assumes "u \<noteq> []" "list_all is_letter u"
  shows "tokenize (one_and_zeros n @ u) = [Token (one_and_zeros n) u]"
  by (subst tokenize.simps) (simp add: token_at_one_and_zeros[OF assms] tokenize_Nil)

lemma parse_one_and_zeros_unit:
  assumes "u \<noteq> []" "list_all is_letter u"
  shows "classify (one_and_zeros 309 @ u) = Token_list"
    and "tokens_of (tokenize (trim (one_and_zeros 309 @ u))) = [(one_and_zeros 309, u)]"
    and "parseDurationMs (one_and_zeros 309 @ u) =
           Inl (Invalid_number_in (one_and_zeros 309) (one_and_zeros 309 @ u))"
    and "skipped_of (tokenize (trim (one_and_zeros 309 @ u))) = []"
proof -
  let ?s = "one_and_zeros 309 @ u"
  have l: "is_letter (last u)" using assms by (auto simp: list_all_iff)
  then have "\<not> is_white_space (last u)" using space_not_letter by blast
  then have t: "trim ?s = ?s"
    using assms one_and_zeros_facts[of 309]
    by (intro trim_id) (auto simp: is_white_space_def)
  have "\<not> is_digit (last u)" "last u \<noteq> 46"
    using l by (auto simp: is_letter_def is_digit_def)
  then have "\<not> list_all (\<lambda>c. is_digit c \<or> c = 46) (strip_sign ?s)"
    using assms by (auto simp: one_and_zeros_def strip_sign_def is_sign_def list_all_iff)
  then have nd: "\<not> is_signed_decimal ?s"
    using decimal_chars[of "strip_sign ?s"] by (auto simp: is_signed_decimal_def)
  have "58 \<notin> set u" using assms by (auto simp: list_all_iff is_letter_def)
  then show cls: "classify ?s = Token_list"
    using nd t one_and_zeros_facts[of 309] by (simp add: classify_Token_list)
  show "tokens_of (tokenize (trim ?s)) = [(one_and_zeros 309, u)]"
    by (simp add: t tokenize_one_and_zeros[OF assms])
  then show "parseDurationMs ?s = Inl (Invalid_number_in (one_and_zeros 309) ?s)"
    by (simp add: parseDurationMs_tokens[OF cls] Number_one_and_zeros isFinite_def)
  show "skipped_of (tokenize (trim ?s)) = []"
    by (simp add: t tokenize_one_and_zeros[OF assms])
qed

lemma signed_value_one_and_zeros: "signed_value (one_and_zeros n) = 10 ^ n"
proof -
  have s: "strip_sign (one_and_zeros n) = one_and_zeros n"
    using one_and_zeros_facts(1) one_and_zeros_digits by (rule strip_sign_digits)
  have "is_digits (one_and_zeros n)"
    using one_and_zeros_facts(1)[of n] one_and_zeros_digits[of n] by (simp add: is_digits_def)
  then have "unsigned_value (one_and_zeros n) = 10 ^ n"
    using decimal_value_digits[of "one_and_zeros n"]
    by (simp add: unsigned_value_def digits_value_one_and_zeros)
  then show ?thesis using one_and_zeros_colon(6)[of n] by (simp add: signed_value_def s)
qed

section \<open>The number before the rounding: lemmas\<close>

lemma ToNumber_get_UNIT_MS:
  "ToNumber (get_UNIT_MS u) = (case multiplier u of None \<Rightarrow> NaN | Some n \<Rightarrow> Num n)"
  by (simp add: get_UNIT_MS_def multiplier_def ToNumber_def split: option.splits)

lemma loop_tokens_total:
  "loop_tokens raw ts st = Inr st' \<Longrightarrow>
     total st' = foldl (\<lambda>acc t. add acc (token_term t)) (total st) ts"
proof (induction ts arbitrary: st)
  case Nil
  then show ?case by simp
next
  case (Cons a ts)
  obtain num unit where a: "a = (num, unit)" by (cases a) auto
  let ?st = "\<lparr>total = add (total st)
                 (mul (Number num) (ToNumber (get_UNIT_MS (toLowerCase unit)))),
               matchedAny = True\<rparr>"
  have "loop_tokens raw ts ?st = Inr st'"
    using Cons.prems a by (auto split: if_splits)
  then have "total st' = foldl (\<lambda>acc t. add acc (token_term t)) (total ?st) ts"
    by (rule Cons.IH)
  then show ?case using a by (simp add: token_term_def ToNumber_get_UNIT_MS)
qed

lemma colon_total_Some:
  assumes "colon_total s = Some v"
  shows "\<exists>c. read_clock s = Some c \<and> v = clock_total c"
proof (cases "read_clock s")
  case None
  then show ?thesis using read_clock_None[of s] assms by simp
next
  case (Some c)
  then show ?thesis using read_clock_Some[OF Some] assms by (auto split: if_splits)
qed

lemma branch_value_origin:
  assumes "branch_value raw = Some v"
  shows "classify raw = Colon_form \<longrightarrow> (\<exists>c. read_clock (trim raw) = Some c \<and> v = clock_total c)"
    and "classify raw = Unitless \<longrightarrow> v = Number (trim raw)"
    and "classify raw = Token_list \<longrightarrow> v = token_sum (tokens_of (tokenize (trim raw)))"
proof -
  show "classify raw = Colon_form \<longrightarrow> (\<exists>c. read_clock (trim raw) = Some c \<and> v = clock_total c)"
  proof
    assume "classify raw = Colon_form"
    then have "trim raw \<noteq> []" "58 \<in> set (trim raw)"
      by (auto simp: classify_def Let_def split: if_splits)
    then have "colon_total (trim raw) = Some v"
      using assms by (simp add: branch_value_def Let_def)
    then show "\<exists>c. read_clock (trim raw) = Some c \<and> v = clock_total c"
      by (rule colon_total_Some)
  qed
  show "classify raw = Unitless \<longrightarrow> v = Number (trim raw)"
    using assms by (auto simp: classify_def branch_value_def Let_def split: if_splits)
  show "classify raw = Token_list \<longrightarrow> v = token_sum (tokens_of (tokenize (trim raw)))"
  proof
    assume c: "classify raw = Token_list"
    let ?st = "\<lparr>total = Num 0, matchedAny = False\<rparr>"
    obtain st where l: "loop_tokens raw (tokens_of (tokenize (trim raw))) ?st = Inr st"
      and v: "v = total st"
      using assms unfolding branch_value_tokens[OF c]
      by (auto split: sum.splits if_splits)
    show "v = token_sum (tokens_of (tokenize (trim raw)))"
      using loop_tokens_total[OF l] v by (simp add: token_sum_def)
  qed
qed

section \<open>The claims\<close>

text \<open>
  C10. The range check on the seconds looks at the value before it is scaled and
  rounded: \<open>00:00:59.9999\<close> passes it (its seconds are below 60), its total is just
  below 60000, and the rounding makes it 60000, the result of \<open>00:01:00\<close>.
\<close>

theorem colon_seconds_round_up_to_next_minute:
  "less (Number (ascii ''59.9999'')) (Num 60) \<and>
   colon_total (ascii ''00:00:59.9999'') = Some (Num (2061580866106163 / 34359738368)) \<and>
   parseDurationMs (ascii ''00:00:59.9999'') = Inr (Num 60000) \<and>
   parseDurationMs (ascii ''00:01:00'') = Inr (Num 60000)"
  by (simp add: eval)

text \<open>
  C9. An input whose trimmed form is empty (in particular one made of spaces, tabs and
  newlines only) is classified as empty and parses to 0; each of the three other
  classes of the dispatcher holds an input that fails.
\<close>

theorem empty_input_returns_zero:
  "(list_all (\<lambda>c. c = 32 \<or> c = 9 \<or> c = 10) raw \<longrightarrow> classify raw = Empty) \<and>
   (classify raw = Empty \<longleftrightarrow> trim raw = []) \<and>
   (trim raw = [] \<longleftrightarrow> list_all is_white_space raw) \<and>
   (classify raw = Empty \<longrightarrow> parseDurationMs raw = Inr (Num 0)) \<and>
   (\<forall>cls. cls \<noteq> Empty \<longrightarrow> (\<exists>r e. classify r = cls \<and> parseDurationMs r = Inl e))"
proof -
  have cls: "classify raw = Empty \<longleftrightarrow> trim raw = []"
    by (simp add: classify_def Let_def)
  have "list_all (\<lambda>c. c = 32 \<or> c = 9 \<or> c = 10) raw \<Longrightarrow> list_all is_white_space raw"
    by (induction raw) (auto simp: is_white_space_def)
  then have a: "list_all (\<lambda>c. c = 32 \<or> c = 9 \<or> c = 10) raw \<longrightarrow> classify raw = Empty"
    by (simp add: cls trim_Nil_iff)
  have b: "classify raw = Empty \<longrightarrow> parseDurationMs raw = Inr (Num 0)"
    by (simp add: cls parseDurationMs_def)
  have colon: "classify (ascii '':'') = Colon_form \<and>
      parseDurationMs (ascii '':'') = Inl (Invalid_colon_duration (ascii '':''))"
    by (simp add: classify_def eval)
  have token: "classify (ascii ''abc'') = Token_list \<and>
      parseDurationMs (ascii ''abc'') = Inl (Could_not_fully_parse (ascii ''abc''))"
    by (simp add: classify_def eval)
  have t: "trim (one_and_zeros 309) = one_and_zeros 309"
    using trim_id[of "one_and_zeros 309"] one_and_zeros_facts[of 309]
    by (simp add: is_white_space_def)
  have d: "is_signed_decimal (one_and_zeros 309)"
    using is_signed_decimal_digits one_and_zeros_facts(1) one_and_zeros_digits by blast
  have unitless: "classify (one_and_zeros 309) = Unitless \<and>
      parseDurationMs (one_and_zeros 309) = Inl (Invalid_number (one_and_zeros 309))"
    using one_and_zeros_facts[of 309]
    by (simp add: classify_def parseDurationMs_def t d test_re_unitless Number_one_and_zeros
        isFinite_def Let_def)
  have c: "\<exists>r e. classify r = cls \<and> parseDurationMs r = Inl e" if "cls \<noteq> Empty" for cls
    using that colon token unitless by (cases cls) blast+
  show ?thesis using a b c cls trim_Nil_iff by blast
qed

theorem empty_input_returns_zero_witness:
  "list_all (\<lambda>c. c = 32 \<or> c = 9 \<or> c = 10) [10, 9, 32, 32] \<and> classify [10, 9, 32, 32] = Empty \<and>
   parseDurationMs [10, 9, 32, 32] = Inr (Num 0) \<and>
   classify (ascii '':'') \<noteq> Empty \<and>
   (\<exists>r e. classify r = classify (ascii '':'') \<and> parseDurationMs r = Inl e)"
proof -
  have "classify (ascii '':'') \<noteq> Empty" by (simp add: classify_def eval)
  then show ?thesis using empty_input_returns_zero[of "[10, 9, 32, 32]"] by simp
qed

text \<open>
  C7 (as amended). The unit table has 23 spellings, not 24. \<open>isDurationUnit\<close> is true
  exactly for these 23 texts, each made of lowercase letters only, so no capitalised
  variant, no padded text and not the empty text is accepted.
\<close>

theorem isDurationUnit_exact_match:
  "(isDurationUnit v \<longleftrightarrow>
      v \<in> ascii ` {''ms'', ''msec'', ''msecs'', ''millisecond'', ''milliseconds'',
                  ''s'', ''sec'', ''secs'', ''second'', ''seconds'',
                  ''m'', ''min'', ''mins'', ''minute'', ''minutes'',
                  ''h'', ''hr'', ''hrs'', ''hour'', ''hours'',
                  ''d'', ''day'', ''days''}) \<and>
   (isDurationUnit v \<longleftrightarrow> v \<in> ascii ` fst ` set UNIT_MS) \<and>
   card {v. isDurationUnit v} = 23 \<and>
   (isDurationUnit v \<longrightarrow> v \<noteq> [] \<and> list_all (\<lambda>c. 97 \<le> c \<and> c \<le> 122) v) \<and>
   \<not> isDurationUnit (ascii ''MS'') \<and> \<not> isDurationUnit (ascii ''Sec'') \<and>
   \<not> isDurationUnit (ascii ''H'') \<and> \<not> isDurationUnit [] \<and>
   \<not> isDurationUnit (ascii ''minute '') \<and> \<not> isDurationUnit (ascii '' sec'') \<and>
   \<not> isDurationUnit (ascii ''foo'')"
proof -
  have a: "isDurationUnit v \<longleftrightarrow>
      v \<in> ascii ` {''ms'', ''msec'', ''msecs'', ''millisecond'', ''milliseconds'',
                  ''s'', ''sec'', ''secs'', ''second'', ''seconds'',
                  ''m'', ''min'', ''mins'', ''minute'', ''minutes'',
                  ''h'', ''hr'', ''hrs'', ''hour'', ''hours'',
                  ''d'', ''day'', ''days''}"
    by (simp add: isDurationUnit_def canonical_spellings_def)
  have "set canonical_spellings = fst ` set UNIT_MS"
    by (rule canonical_spellings_are_the_keys)
  then have b: "isDurationUnit v \<longleftrightarrow> v \<in> ascii ` fst ` set UNIT_MS"
    by (simp add: isDurationUnit_def)
  have c: "card {v. isDurationUnit v} = 23" by (rule card_isDurationUnit)
  have "list_all (\<lambda>w. w \<noteq> [] \<and> list_all (\<lambda>c. 97 \<le> c \<and> c \<le> 122) w)
          (map ascii canonical_spellings)"
    by (simp add: canonical_spellings_def ascii_def)
  then have d: "isDurationUnit v \<longrightarrow> v \<noteq> [] \<and> list_all (\<lambda>c. 97 \<le> c \<and> c \<le> 122) v"
    unfolding isDurationUnit_def list_all_iff by blast
  have e: "\<not> isDurationUnit (ascii ''MS'') \<and> \<not> isDurationUnit (ascii ''Sec'') \<and>
   \<not> isDurationUnit (ascii ''H'') \<and> \<not> isDurationUnit [] \<and>
   \<not> isDurationUnit (ascii ''minute '') \<and> \<not> isDurationUnit (ascii '' sec'') \<and>
   \<not> isDurationUnit (ascii ''foo'')"
    by (simp add: isDurationUnit_def canonical_spellings_def ascii_def)
  show ?thesis using a b c d e by blast
qed

theorem isDurationUnit_exact_match_witness:
  "isDurationUnit (ascii ''seconds'') \<and> ascii ''seconds'' \<noteq> [] \<and>
   list_all (\<lambda>c. 97 \<le> c \<and> c \<le> 122) (ascii ''seconds'')"
proof -
  have "isDurationUnit (ascii ''seconds'')"
    by (simp add: isDurationUnit_def canonical_spellings_def ascii_def)
  then show ?thesis using isDurationUnit_exact_match[of "ascii ''seconds''"] by blast
qed

text \<open>
  C7 as it is stated speaks of 24 canonical spellings. The table of the source has 23
  keys, and so has the list of the specification.
\<close>

theorem unit_table_has_23_spellings:
  "card (fst ` set UNIT_MS) \<noteq> 24 \<and> card {v. isDurationUnit v} \<noteq> 24"
  by (simp add: card_UNIT_MS card_isDurationUnit)

text \<open>
  C3. An input whose trimmed form holds a colon is of the colon class, and its outcome
  is the colon parser's alone: its number, or the error "invalid colon duration" with
  the untrimmed input. In particular a text that is not a clock time (wrong number of
  segments, a segment off its pattern, minutes above 59, seconds of 60 or more) fails
  with that error, and no other error is possible for such an input.
\<close>

theorem colon_dispatch_and_rejection:
  "58 \<in> set (trim raw) \<Longrightarrow>
     classify raw = Colon_form \<and>
     parseDurationMs raw =
       (case parseColonTimeToMs (trim raw) of
          None \<Rightarrow> Inl (Invalid_colon_duration raw) | Some ms \<Rightarrow> Inr ms) \<and>
     (read_clock (trim raw) = None \<longrightarrow> parseDurationMs raw = Inl (Invalid_colon_duration raw)) \<and>
     (\<forall>e. parseDurationMs raw = Inl e \<longrightarrow> e = Invalid_colon_duration raw)"
proof -
  assume c: "58 \<in> set (trim raw)"
  then have "trim raw \<noteq> []" by auto
  then have cls: "classify raw = Colon_form" using c by (simp add: classify_def Let_def)
  note p = parseDurationMs_colon[OF c]
  have "read_clock (trim raw) = None \<longrightarrow> parseDurationMs raw = Inl (Invalid_colon_duration raw)"
    using p read_clock_None[of "trim raw"] by (simp add: parseColonTimeToMs_def)
  moreover have "\<forall>e. parseDurationMs raw = Inl e \<longrightarrow> e = Invalid_colon_duration raw"
    using p by (auto split: option.splits)
  ultimately show ?thesis using cls p by blast
qed

theorem colon_dispatch_and_rejection_witness:
  "parseDurationMs (ascii ''1:30h'') = Inl (Invalid_colon_duration (ascii ''1:30h'')) \<and>
   parseDurationMs (ascii '':'') = Inl (Invalid_colon_duration (ascii '':'')) \<and>
   parseDurationMs (ascii ''1::2'') = Inl (Invalid_colon_duration (ascii ''1::2'')) \<and>
   parseDurationMs (ascii ''1:2:3:4'') = Inl (Invalid_colon_duration (ascii ''1:2:3:4'')) \<and>
   parseDurationMs (ascii ''01:60'') = Inl (Invalid_colon_duration (ascii ''01:60'')) \<and>
   parseDurationMs (ascii ''00:00:60'') = Inl (Invalid_colon_duration (ascii ''00:00:60'')) \<and>
   parseDurationMs (ascii ''00:00:01.'') = Inl (Invalid_colon_duration (ascii ''00:00:01.'')) \<and>
   parseDurationMs (ascii '' 1:30h '') = Inl (Invalid_colon_duration (ascii '' 1:30h '')) \<and>
   message (Invalid_colon_duration (ascii '' 1:30h '')) =
     ascii ''parseDurationMs: invalid '' @ [34] @ ascii '':'' @ [34] @ ascii '' duration ''
       @ [34] @ ascii '' 1:30h '' @ [34]"
proof -
  have ok: "58 \<in> set (trim s) \<and> read_clock (trim s) = None"
    if "s \<in> set (map ascii [''1:30h'', '':'', ''1::2'', ''1:2:3:4'', ''01:60'', ''00:00:60'',
          ''00:00:01.'', '' 1:30h ''])" for s
    using that
    by (auto simp: clock_eval str_eval is_signed_digits_def is_digits_def is_decimal_def
        decimal_rest_def digits_rest_def fraction_rest_def digits_value_def decimal_value_def)
  have "parseDurationMs s = Inl (Invalid_colon_duration s)"
    if "s \<in> set (map ascii [''1:30h'', '':'', ''1::2'', ''1:2:3:4'', ''01:60'', ''00:00:60'',
          ''00:00:01.'', '' 1:30h ''])" for s
    using ok[OF that] colon_dispatch_and_rejection[of s] by blast
  then show ?thesis by simp
qed

text \<open>
  C2 (as amended). For an input whose trimmed form reads as a clock time: if its hours
  are below the binary64 overflow threshold and its seconds, read as a binary64
  number, are below 60, the result is the clock time's total rounded once: the sign
  of the hour segment times the sum of the hours, minutes and seconds in
  milliseconds, in binary64 arithmetic. Otherwise, the hours being at or above the
  threshold or the seconds reading as a binary64 number not below 60, the parse fails
  with \<open>invalid ":" duration\<close> and the input as it was given.
\<close>

theorem colon_time_value:
  "read_clock (trim raw) = Some c \<Longrightarrow>
     (of_int (hours c) < overflow_threshold \<and> less (fl (seconds c)) (Num 60) \<longrightarrow>
        parseDurationMs raw = Inr (clock_ms c) \<and> branch_value raw = Some (clock_total c)) \<and>
     (\<not> (of_int (hours c) < overflow_threshold \<and> less (fl (seconds c)) (Num 60)) \<longrightarrow>
        parseDurationMs raw = Inl (Invalid_colon_duration raw))"
proof -
  assume r: "read_clock (trim raw) = Some c"
  have c: "58 \<in> set (trim raw)" using r by (rule read_clock_has_colon)
  have n: "trim raw \<noteq> []" using c by auto
  have a: "parseDurationMs raw = Inr (clock_ms c) \<and> branch_value raw = Some (clock_total c)"
    if "of_int (hours c) < overflow_threshold \<and> less (fl (seconds c)) (Num 60)"
  proof -
    have t: "colon_total (trim raw) = Some (clock_total c)"
      using read_clock_Some[OF r] that by simp
    have "branch_value raw = Some (clock_total c)"
      using n c t by (simp add: branch_value_def Let_def)
    then show ?thesis using parseDurationMs_colon[OF c] t
      by (simp add: parseColonTimeToMs_def clock_ms_def)
  qed
  have b: "parseDurationMs raw = Inl (Invalid_colon_duration raw)"
    if "\<not> (of_int (hours c) < overflow_threshold \<and> less (fl (seconds c)) (Num 60))"
  proof -
    have "colon_total (trim raw) = None" using read_clock_Some[OF r] that by simp
    then show ?thesis using parseDurationMs_colon[OF c] by (simp add: parseColonTimeToMs_def)
  qed
  show ?thesis using a b by blast
qed

theorem colon_time_value_witness:
  "parseDurationMs (ascii ''01:30'') = Inr (Num 5400000) \<and>
   parseDurationMs (ascii ''01:30:15.250'') = Inr (Num 5415250) \<and>
   parseDurationMs (ascii ''-00:00:00.500'') = Inr (Num (- 500)) \<and>
   read_clock (trim (ascii ''-00:59:59.99999999999999999'')) =
     Some \<lparr>negative = True, hours = 0, minutes = 59,
           seconds = 5999999999999999999 / 100000000000000000\<rparr> \<and>
   \<not> less (fl (5999999999999999999 / 100000000000000000)) (Num 60) \<and>
   parseDurationMs (ascii ''-00:59:59.99999999999999999'') =
     Inl (Invalid_colon_duration (ascii ''-00:59:59.99999999999999999''))"
proof -
  have a: "read_clock (trim (ascii ''01:30'')) =
      Some \<lparr>negative = False, hours = 1, minutes = 30, seconds = 0\<rparr>"
    by (simp add: clock_eval str_eval is_signed_digits_def is_digits_def digits_value_def)
  have b: "read_clock (trim (ascii ''01:30:15.250'')) =
      Some \<lparr>negative = False, hours = 1, minutes = 30, seconds = 61 / 4\<rparr>"
    by (simp add: clock_eval str_eval is_signed_digits_def is_digits_def is_decimal_def
        decimal_rest_def digits_rest_def fraction_rest_def digits_value_def decimal_value_def)
  have c: "read_clock (trim (ascii ''-00:00:00.500'')) =
      Some \<lparr>negative = True, hours = 0, minutes = 0, seconds = 1 / 2\<rparr>"
    by (simp add: clock_eval str_eval is_signed_digits_def is_digits_def is_decimal_def
        decimal_rest_def digits_rest_def fraction_rest_def digits_value_def decimal_value_def)
  have d: "read_clock (trim (ascii ''-00:59:59.99999999999999999'')) =
      Some \<lparr>negative = True, hours = 0, minutes = 59,
            seconds = 5999999999999999999 / 100000000000000000\<rparr>"
    by (simp add: clock_eval str_eval is_signed_digits_def is_digits_def is_decimal_def
        decimal_rest_def digits_rest_def fraction_rest_def digits_value_def decimal_value_def)
  have fa: "less (fl 0) (Num 60)" "less (fl (61 / 4)) (Num 60)" "less (fl (1 / 2)) (Num 60)"
    by (simp_all add: fl_eval num_eval)
  have fd: "\<not> less (fl (5999999999999999999 / 100000000000000000)) (Num 60)"
    by (simp add: fl_eval num_eval)
  have t: "(0::rat) < overflow_threshold" "(1::rat) < overflow_threshold"
    by (simp_all add: overflow_threshold_def)
  have va: "clock_ms \<lparr>negative = False, hours = 1, minutes = 30, seconds = 0\<rparr> = Num 5400000"
    by (simp add: clock_eval fl_eval num_eval)
  have vb: "clock_ms \<lparr>negative = False, hours = 1, minutes = 30, seconds = 61 / 4\<rparr> = Num 5415250"
    by (simp add: clock_eval fl_eval num_eval)
  have vc: "clock_ms \<lparr>negative = True, hours = 0, minutes = 0, seconds = 1 / 2\<rparr> = Num (- 500)"
    by (simp add: clock_eval fl_eval num_eval)
  have 1: "parseDurationMs (ascii ''01:30'') = Inr (Num 5400000)"
    using colon_time_value[OF a] fa t va by simp
  have 2: "parseDurationMs (ascii ''01:30:15.250'') = Inr (Num 5415250)"
    using colon_time_value[OF b] fa t vb by simp
  have 3: "parseDurationMs (ascii ''-00:00:00.500'') = Inr (Num (- 500))"
    using colon_time_value[OF c] fa t vc by simp
  have 4: "parseDurationMs (ascii ''-00:59:59.99999999999999999'') =
      Inl (Invalid_colon_duration (ascii ''-00:59:59.99999999999999999''))"
    using colon_time_value[OF d] fd by simp
  show ?thesis using 1 2 3 4 d fd by simp
qed

text \<open>
  C2 as it is stated puts no bound on the hours and takes the seconds as a real
  number: hours of 310 digits read as Infinity, and seconds just below 60 read as the
  binary64 number 60; the code rejects both inputs.
\<close>

theorem colon_time_value_counterexample:
  "read_clock (trim (one_and_zeros 309 @ ascii '':00'')) =
     Some \<lparr>negative = False, hours = 10 ^ 309, minutes = 0, seconds = 0\<rparr> \<and>
   parseDurationMs (one_and_zeros 309 @ ascii '':00'') =
     Inl (Invalid_colon_duration (one_and_zeros 309 @ ascii '':00'')) \<and>
   read_clock (trim (ascii ''00:00:59.99999999999999999999'')) =
     Some \<lparr>negative = False, hours = 0, minutes = 0,
           seconds = 5999999999999999999999 / 100000000000000000000\<rparr> \<and>
   parseDurationMs (ascii ''00:00:59.99999999999999999999'') =
     Inl (Invalid_colon_duration (ascii ''00:00:59.99999999999999999999''))"
proof -
  let ?big = "one_and_zeros 309 @ ascii '':00''"
  have "trim (ascii ''00'') = ascii ''00''" "is_digits (ascii ''00'')"
    "digits_value (ascii ''00'') = 0"
    by (simp_all add: str_eval is_digits_def digits_value_def)
  then have a: "read_clock (trim ?big) =
      Some \<lparr>negative = False, hours = 10 ^ 309, minutes = 0, seconds = 0\<rparr>"
    by (simp add: read_clock_def one_and_zeros_colon)
  have "\<not> of_int (10 ^ 309) < overflow_threshold" by (simp add: overflow_threshold_def)
  then have "colon_total (trim ?big) = None" using read_clock_Some[OF a] by simp
  moreover have "58 \<in> set (trim ?big)" using a by (rule read_clock_has_colon)
  ultimately have b: "parseDurationMs ?big = Inl (Invalid_colon_duration ?big)"
    using parseDurationMs_colon[of ?big] by (simp add: parseColonTimeToMs_def)
  let ?sec = "ascii ''00:00:59.99999999999999999999''"
  have c: "read_clock (trim ?sec) =
      Some \<lparr>negative = False, hours = 0, minutes = 0,
            seconds = 5999999999999999999999 / 100000000000000000000\<rparr>"
    by (simp add: clock_eval str_eval is_signed_digits_def is_digits_def is_decimal_def
        decimal_rest_def digits_rest_def fraction_rest_def digits_value_def decimal_value_def)
  have "\<not> less (fl (5999999999999999999999 / 100000000000000000000)) (Num 60)"
    by (simp add: fl_eval num_eval)
  then have "colon_total (trim ?sec) = None" using read_clock_Some[OF c] by simp
  moreover have "58 \<in> set (trim ?sec)" using c by (rule read_clock_has_colon)
  ultimately have d: "parseDurationMs ?sec = Inl (Invalid_colon_duration ?sec)"
    using parseDurationMs_colon[of ?sec] by (simp add: parseColonTimeToMs_def)
  show ?thesis using a b c d by blast
qed

text \<open>
  C8 (as amended). An input whose trimmed form is a signed decimal text is of the
  unitless class. If the magnitude of the decimal is below the binary64 overflow
  threshold, the result is \<open>Math.round\<close> of the binary64 number nearest to it (a zero
  keeps the sign of the text); from the threshold on the text reads as an infinity and
  the input fails with "invalid number".
\<close>

theorem unitless_value:
  "is_signed_decimal (trim raw) \<Longrightarrow>
     classify raw = Unitless \<and>
     (\<bar>signed_value (trim raw)\<bar> < overflow_threshold \<longrightarrow>
        parseDurationMs raw = Inr (Math_round (Number (trim raw))) \<and>
        Number (trim raw) =
          (if signed_value (trim raw) = 0
           then (if take 1 (trim raw) = [45] then NegZero else Num 0)
           else fl (signed_value (trim raw)))) \<and>
     (overflow_threshold \<le> \<bar>signed_value (trim raw)\<bar> \<longrightarrow>
        parseDurationMs raw = Inl (Invalid_number raw))"
proof -
  assume d: "is_signed_decimal (trim raw)"
  have "signed_value (trim raw) = 0 \<longleftrightarrow> unsigned_value (strip_sign (trim raw)) = 0"
    by (simp add: signed_value_def)
  then have "Number (trim raw) =
          (if signed_value (trim raw) = 0
           then (if take 1 (trim raw) = [45] then NegZero else Num 0)
           else fl (signed_value (trim raw)))"
    using Number_signed_decimal[OF d] by simp
  then show ?thesis
    using parseDurationMs_unitless(1,2)[OF d] isFinite_Number[OF d] by auto
qed

theorem unitless_value_witness:
  "parseDurationMs (ascii ''1500'') = Inr (Num 1500) \<and>
   parseDurationMs (ascii ''-1500.5'') = Inr (Num (- 1500)) \<and>
   parseDurationMs (ascii ''Infinity'') = Inl (Could_not_fully_parse (ascii ''Infinity'')) \<and>
   parseDurationMs (ascii ''-Infinity'') = Inl (Could_not_fully_parse (ascii ''-Infinity'')) \<and>
   parseDurationMs (ascii ''NaN'') = Inl (Could_not_fully_parse (ascii ''NaN'')) \<and>
   parseDurationMs (one_and_zeros 309) = Inl (Invalid_number (one_and_zeros 309))"
proof -
  have a: "is_signed_decimal (trim (ascii ''1500''))"
    "\<bar>signed_value (trim (ascii ''1500''))\<bar> < overflow_threshold"
    "Math_round (Number (trim (ascii ''1500''))) = Num 1500"
    by (simp_all add: eval clock_eval)
  have b: "is_signed_decimal (trim (ascii ''-1500.5''))"
    "\<bar>signed_value (trim (ascii ''-1500.5''))\<bar> < overflow_threshold"
    "Math_round (Number (trim (ascii ''-1500.5''))) = Num (- 1500)"
    by (simp_all add: eval clock_eval)
  have c: "parseDurationMs (ascii ''Infinity'') = Inl (Could_not_fully_parse (ascii ''Infinity''))"
    "parseDurationMs (ascii ''-Infinity'') = Inl (Could_not_fully_parse (ascii ''-Infinity''))"
    "parseDurationMs (ascii ''NaN'') = Inl (Could_not_fully_parse (ascii ''NaN''))"
    by (simp_all add: eval)
  have t: "trim (one_and_zeros 309) = one_and_zeros 309" by (rule one_and_zeros_colon(3))
  have d: "is_signed_decimal (trim (one_and_zeros 309))"
    unfolding t using is_signed_decimal_digits one_and_zeros_facts(1) one_and_zeros_digits by blast
  have "signed_value (one_and_zeros 309) = 10 ^ 309" by (rule signed_value_one_and_zeros)
  then have e: "overflow_threshold \<le> \<bar>signed_value (trim (one_and_zeros 309))\<bar>"
    unfolding t using ten_309 by simp
  show ?thesis
    using unitless_value[OF a(1)] unitless_value[OF b(1)] unitless_value[OF d] a b c e by simp
qed

text \<open>
  C8 as it is stated promises a number for every signed decimal text. The digit 1
  followed by 309 zeros matches the pattern and fails with "invalid number".
\<close>

theorem unitless_value_counterexample:
  "is_signed_decimal (trim (one_and_zeros 309)) \<and> classify (one_and_zeros 309) = Unitless \<and>
   parseDurationMs (one_and_zeros 309) = Inl (Invalid_number (one_and_zeros 309))"
proof -
  have t: "trim (one_and_zeros 309) = one_and_zeros 309" by (rule one_and_zeros_colon(3))
  have d: "is_signed_decimal (trim (one_and_zeros 309))"
    unfolding t using is_signed_decimal_digits one_and_zeros_facts(1) one_and_zeros_digits by blast
  have "\<not> isFinite (Number (trim (one_and_zeros 309)))"
    unfolding t by (simp add: Number_one_and_zeros isFinite_def)
  then show ?thesis using d parseDurationMs_unitless(1,2)[OF d] by simp
qed

text \<open>
  C6 (as amended). The "invalid number" error is reachable, and only through a number
  text that reads as an infinity: in the unitless branch exactly when the magnitude of
  the trimmed text is at or above the overflow threshold, in the token loop only for a
  token whose number text is. A number text of at most 308 code units is always
  finite, so no input of at most 308 code units produces the error.
\<close>

theorem invalid_number_only_on_overflow:
  "(parseDurationMs raw = Inl (Invalid_number r) \<longleftrightarrow>
      r = raw \<and> is_signed_decimal (trim raw)
      \<and> overflow_threshold \<le> \<bar>signed_value (trim raw)\<bar>) \<and>
   (parseDurationMs raw = Inl (Invalid_number_in t r) \<longrightarrow>
      r = raw \<and> classify raw = Token_list
      \<and> (\<exists>u. (t, u) \<in> set (tokens_of (tokenize (trim raw))))
      \<and> is_signed_decimal t \<and> overflow_threshold \<le> \<bar>signed_value t\<bar>) \<and>
   (length raw \<le> 308 \<longrightarrow>
      parseDurationMs raw \<noteq> Inl (Invalid_number r) \<and>
      parseDurationMs raw \<noteq> Inl (Invalid_number_in t r))"
proof -
  have a: "parseDurationMs raw = Inl (Invalid_number r) \<longleftrightarrow>
      r = raw \<and> is_signed_decimal (trim raw)
      \<and> overflow_threshold \<le> \<bar>signed_value (trim raw)\<bar>"
  proof (cases raw rule: classify_cases)
    case empty
    then show ?thesis
      using signed_decimal_no_colon[of "trim raw"] by (auto simp: parseDurationMs_def)
  next
    case colon
    then show ?thesis
      using parseDurationMs_colon[OF colon(1)] signed_decimal_no_colon[of "trim raw"]
      by (auto split: option.splits)
  next
    case unitless
    then show ?thesis
      using parseDurationMs_unitless(1)[OF unitless(1)] isFinite_Number[OF unitless(1)]
      by auto
  next
    case tokens
    have "\<not> is_signed_decimal (trim raw)" using tokens by (simp add: classify_Token_list)
    moreover have "parseDurationMs raw \<noteq> Inl (Invalid_number r)"
      unfolding parseDurationMs_tokens[OF tokens]
      using loop_tokens_error[of raw "tokens_of (tokenize (trim raw))"]
      by (auto split: sum.splits)
    ultimately show ?thesis by simp
  qed
  have b: "r = raw \<and> classify raw = Token_list
      \<and> (\<exists>u. (t, u) \<in> set (tokens_of (tokenize (trim raw))))
      \<and> is_signed_decimal t \<and> overflow_threshold \<le> \<bar>signed_value t\<bar>"
    if p: "parseDurationMs raw = Inl (Invalid_number_in t r)"
  proof (cases raw rule: classify_cases)
    case empty
    then show ?thesis using p by (simp add: parseDurationMs_def)
  next
    case colon
    then show ?thesis using p parseDurationMs_colon[OF colon(1)] by (auto split: option.splits)
  next
    case unitless
    then show ?thesis using p parseDurationMs_unitless(1)[OF unitless(1)]
      by (auto split: if_splits)
  next
    case tokens
    let ?ts = "tokens_of (tokenize (trim raw))"
    let ?st = "\<lparr>total = Num 0, matchedAny = False\<rparr>"
    have "loop_tokens raw ?ts ?st = Inl (Invalid_number_in t r)"
      using p unfolding parseDurationMs_tokens[OF tokens]
      by (auto split: sum.splits if_splits)
    then obtain u where u: "(t, u) \<in> set ?ts" "\<not> isFinite (Number t)" "r = raw"
      using loop_tokens_error[of raw ?ts ?st "Invalid_number_in t r"] by auto
    have "is_signed_decimal t" using tokens_texts[OF u(1)] by simp
    then show ?thesis using u tokens isFinite_Number[of t] by auto
  qed
  have c: "parseDurationMs raw \<noteq> Inl (Invalid_number r) \<and>
      parseDurationMs raw \<noteq> Inl (Invalid_number_in t r)" if l: "length raw \<le> 308"
  proof -
    have lt: "length (trim raw) \<le> 308" using l length_trim_le[of raw] by simp
    have "\<bar>signed_value (trim raw)\<bar> < overflow_threshold"
      using lt by (rule short_text_finite)
    then have 1: "parseDurationMs raw \<noteq> Inl (Invalid_number r)" using a by auto
    have 2: "parseDurationMs raw \<noteq> Inl (Invalid_number_in t r)"
    proof
      assume p: "parseDurationMs raw = Inl (Invalid_number_in t r)"
      then obtain u where u: "(t, u) \<in> set (tokens_of (tokenize (trim raw)))"
        and o: "overflow_threshold \<le> \<bar>signed_value t\<bar>"
        using b by blast
      have "length t \<le> 308" using tokens_texts[OF u] lt by simp
      then show False using short_text_finite[of t] o by simp
    qed
    show ?thesis using 1 2 by simp
  qed
  show ?thesis using a b c by blast
qed

theorem invalid_number_only_on_overflow_witness:
  "parseDurationMs (one_and_zeros 309) = Inl (Invalid_number (one_and_zeros 309)) \<and>
   length (ascii ''1h 30m'') \<le> 308 \<and>
   parseDurationMs (ascii ''1h 30m'') \<noteq> Inl (Invalid_number (ascii ''1h 30m'')) \<and>
   parseDurationMs (ascii ''1h 30m'') \<noteq> Inl (Invalid_number_in (ascii ''1'') (ascii ''1h 30m''))"
proof -
  have t: "trim (one_and_zeros 309) = one_and_zeros 309" by (rule one_and_zeros_colon(3))
  have d: "is_signed_decimal (trim (one_and_zeros 309))"
    unfolding t using is_signed_decimal_digits one_and_zeros_facts(1) one_and_zeros_digits by blast
  have "signed_value (one_and_zeros 309) = 10 ^ 309" by (rule signed_value_one_and_zeros)
  then have e: "overflow_threshold \<le> \<bar>signed_value (trim (one_and_zeros 309))\<bar>"
    unfolding t using ten_309 by simp
  have l: "length (ascii ''1h 30m'') \<le> 308" by (simp add: ascii_def)
  show ?thesis
    using invalid_number_only_on_overflow[of "one_and_zeros 309" "one_and_zeros 309"]
      invalid_number_only_on_overflow[of "ascii ''1h 30m''" "ascii ''1h 30m''" "ascii ''1''"]
      d e l by blast
qed

text \<open>
  C6 as it is stated calls both finiteness guards unreachable. The digit 1 followed by
  309 zeros fires the guard of the unitless branch, and the same number with a unit
  fires the guard of the token loop.
\<close>

theorem invalid_number_is_reachable:
  "parseDurationMs (one_and_zeros 309) = Inl (Invalid_number (one_and_zeros 309)) \<and>
   parseDurationMs (one_and_zeros 309 @ ascii ''h'') =
     Inl (Invalid_number_in (one_and_zeros 309) (one_and_zeros 309 @ ascii ''h'')) \<and>
   length (one_and_zeros 309) = 310"
proof -
  have t: "trim (one_and_zeros 309) = one_and_zeros 309" by (rule one_and_zeros_colon(3))
  have d: "is_signed_decimal (trim (one_and_zeros 309))"
    unfolding t using is_signed_decimal_digits one_and_zeros_facts(1) one_and_zeros_digits by blast
  have "\<not> isFinite (Number (trim (one_and_zeros 309)))"
    unfolding t by (simp add: Number_one_and_zeros isFinite_def)
  then have a: "parseDurationMs (one_and_zeros 309) = Inl (Invalid_number (one_and_zeros 309))"
    using parseDurationMs_unitless(1)[OF d] by simp
  have "ascii ''h'' \<noteq> []" "list_all is_letter (ascii ''h'')"
    by (simp_all add: ascii_def is_letter_def)
  then have b: "parseDurationMs (one_and_zeros 309 @ ascii ''h'') =
     Inl (Invalid_number_in (one_and_zeros 309) (one_and_zeros 309 @ ascii ''h''))"
    by (rule parse_one_and_zeros_unit(3))
  show ?thesis using a b one_and_zeros_facts(5)[of 309] by simp
qed

text \<open>
  C4. Whatever a non-empty input returns is \<open>Math.round\<close> of the number its branch
  held, and every number a branch holds is returned rounded. That number is the total of
  the clock time in the colon form, \<open>sign * (hours * 3600000 + minutes * 60000 + seconds * 1000)\<close>,
  the number read from the text in the unitless form, and the sum of
  \<open>value * multiplier(unit)\<close> over the tokens in the token list: binary64 products and
  sums with no rounding to an integer in them, so the rounding is the last step and
  the only one. On a finite number \<open>Math.round\<close> yields \<open>\<lfloor>q + 1/2\<rfloor>\<close>, an integer nearest
  to \<open>q\<close>, and the upper one of the two nearest at a tie.
\<close>

theorem rounding_policy:
  "(trim raw \<noteq> [] \<longrightarrow>
      (parseDurationMs raw = Inr r \<longleftrightarrow> (\<exists>v. branch_value raw = Some v \<and> r = Math_round v))) \<and>
   (branch_value raw = Some v \<longrightarrow>
      (classify raw = Colon_form \<longrightarrow>
         (\<exists>c. read_clock (trim raw) = Some c \<and> v = clock_total c)) \<and>
      (classify raw = Unitless \<longrightarrow> v = Number (trim raw)) \<and>
      (classify raw = Token_list \<longrightarrow> v = token_sum (tokens_of (tokenize (trim raw))))) \<and>
   Math_round (Num q) =
     (if q < 0 \<and> \<lfloor>q + 1 / 2\<rfloor> = 0 then NegZero else Num (of_int \<lfloor>q + 1 / 2\<rfloor>)) \<and>
   rat_of (Math_round (Num q)) = of_int \<lfloor>q + 1 / 2\<rfloor> \<and>
   (\<forall>n. \<bar>of_int \<lfloor>q + 1 / 2\<rfloor> - q\<bar> \<le> \<bar>of_int n - q\<bar>) \<and>
   (\<forall>n. q = of_int n + 1 / 2 \<longrightarrow> rat_of (Math_round (Num q)) = of_int (n + 1))"
proof -
  let ?f = "\<lfloor>q + 1 / 2\<rfloor>"
  have a: "trim raw \<noteq> [] \<longrightarrow>
      (parseDurationMs raw = Inr r \<longleftrightarrow> (\<exists>v. branch_value raw = Some v \<and> r = Math_round v))"
    using parse_branch by blast
  have o: "branch_value raw = Some v \<longrightarrow>
      (classify raw = Colon_form \<longrightarrow>
         (\<exists>c. read_clock (trim raw) = Some c \<and> v = clock_total c)) \<and>
      (classify raw = Unitless \<longrightarrow> v = Number (trim raw)) \<and>
      (classify raw = Token_list \<longrightarrow> v = token_sum (tokens_of (tokenize (trim raw))))"
    using branch_value_origin[of raw v] by blast
  have b: "Math_round (Num q) = (if q < 0 \<and> ?f = 0 then NegZero else Num (of_int ?f))"
    by (simp add: Math_round_def)
  have c: "rat_of (Math_round (Num q)) = of_int ?f"
    by (simp add: Math_round_def rat_of_def)
  have lo: "of_int ?f \<le> q + 1 / 2" by (rule of_int_floor_le)
  have hi: "q + 1 / 2 < of_int ?f + 1" using floor_correct[of "q + 1 / 2"] by simp
  have d: "\<bar>of_int ?f - q\<bar> \<le> \<bar>of_int n - q\<bar>" for n
  proof (cases "n \<le> ?f")
    case True
    show ?thesis
    proof (cases "n = ?f")
      case True
      then show ?thesis by simp
    next
      case False
      then have "n \<le> ?f - 1" using True by simp
      then have "(of_int n :: rat) \<le> of_int (?f - 1)" by (simp only: of_int_le_iff)
      then have "(of_int n :: rat) \<le> of_int ?f - 1" by simp
      then show ?thesis using lo hi by linarith
    qed
  next
    case False
    then have "?f + 1 \<le> n" by simp
    then have "(of_int (?f + 1) :: rat) \<le> of_int n" by (simp only: of_int_le_iff)
    then have "(of_int ?f :: rat) + 1 \<le> of_int n" by simp
    then show ?thesis using lo hi by linarith
  qed
  have e: "rat_of (Math_round (Num q)) = of_int (n + 1)" if "q = of_int n + 1 / 2" for n
  proof -
    have "q + 1 / 2 = of_int (n + 1)" using that by simp
    then have "?f = n + 1" by (simp only: floor_of_int)
    then show ?thesis using c by simp
  qed
  show ?thesis using a o b c d e by blast
qed

theorem rounding_policy_witness:
  "trim (ascii ''0.5ms'') \<noteq> [] \<and> classify (ascii ''0.5ms'') = Token_list \<and>
   branch_value (ascii ''0.5ms'') = Some (Num (1 / 2)) \<and>
   token_sum (tokens_of (tokenize (trim (ascii ''0.5ms'')))) = Num (1 / 2) \<and>
   parseDurationMs (ascii ''0.5ms'') = Inr (Num 1) \<and>
   branch_value (ascii ''-0.5ms'') = Some (Num (- (1 / 2))) \<and>
   parseDurationMs (ascii ''-0.5ms'') = Inr NegZero \<and> rat_of NegZero = 0 \<and>
   Math_round (Num (5 / 2)) = Num 3 \<and> Math_round (Num (- (5 / 2))) = Num (- 2) \<and>
   branch_value (ascii ''0.25ms 0.25ms'') = Some (Num (1 / 2)) \<and>
   parseDurationMs (ascii ''0.25ms 0.25ms'') = Inr (Num 1) \<and>
   classify (ascii ''-00:00:00.0005'') = Colon_form \<and>
   read_clock (trim (ascii ''-00:00:00.0005'')) =
     Some \<lparr>negative = True, hours = 0, minutes = 0, seconds = 1 / 2000\<rparr> \<and>
   clock_total \<lparr>negative = True, hours = 0, minutes = 0, seconds = 1 / 2000\<rparr> =
     Num (- (1 / 2)) \<and>
   Math_round (Num (1 / 2)) = Num 1 \<and>
   parseDurationMs (ascii ''-00:00:00.0005'') = Inr NegZero \<and>
   classify (ascii ''-1500.5'') = Unitless \<and>
   Number (trim (ascii ''-1500.5'')) = Num (- (3001 / 2)) \<and>
   parseDurationMs (ascii ''-1500.5'') = Inr (Num (- 1500))"
proof -
  have a: "trim (ascii ''0.5ms'') \<noteq> []" "branch_value (ascii ''0.5ms'') = Some (Num (1 / 2))"
    "Math_round (Num (1 / 2)) = Num 1" "classify (ascii ''0.5ms'') = Token_list"
    by (simp_all add: eval branch_value_def classify_def)
  have b: "trim (ascii ''-0.5ms'') \<noteq> []"
    "branch_value (ascii ''-0.5ms'') = Some (Num (- (1 / 2)))"
    "Math_round (Num (- (1 / 2))) = NegZero" "rat_of NegZero = 0"
    by (simp_all add: eval branch_value_def)
  have c: "trim (ascii ''0.25ms 0.25ms'') \<noteq> []"
    "branch_value (ascii ''0.25ms 0.25ms'') = Some (Num (1 / 2))"
    by (simp_all add: eval branch_value_def)
  have d: "Math_round (Num (5 / 2)) = Num 3" "Math_round (Num (- (5 / 2))) = Num (- 2)"
    by (simp_all add: eval)
  have e: "trim (ascii ''-00:00:00.0005'') \<noteq> []"
    "classify (ascii ''-00:00:00.0005'') = Colon_form"
    "branch_value (ascii ''-00:00:00.0005'') = Some (Num (- (1 / 2)))"
    by (simp_all add: eval branch_value_def classify_def)
  have e': "read_clock (trim (ascii ''-00:00:00.0005'')) =
      Some \<lparr>negative = True, hours = 0, minutes = 0, seconds = 1 / 2000\<rparr>"
    by (simp add: clock_eval str_eval is_signed_digits_def is_digits_def is_decimal_def
        decimal_rest_def digits_rest_def fraction_rest_def digits_value_def decimal_value_def)
  have f: "trim (ascii ''-1500.5'') \<noteq> []" "classify (ascii ''-1500.5'') = Unitless"
    "branch_value (ascii ''-1500.5'') = Some (Num (- (3001 / 2)))"
    "Math_round (Num (- (3001 / 2))) = Num (- 1500)"
    by (simp_all add: eval branch_value_def classify_def)
  have 1: "parseDurationMs (ascii ''0.5ms'') = Inr (Num 1)"
    "token_sum (tokens_of (tokenize (trim (ascii ''0.5ms'')))) = Num (1 / 2)"
    using rounding_policy[of "ascii ''0.5ms''" "Num 1" "Num (1 / 2)" "5 / 2"] a by simp_all
  have 2: "parseDurationMs (ascii ''-0.5ms'') = Inr NegZero"
    using rounding_policy[of "ascii ''-0.5ms''" NegZero "Num (- (1 / 2))" "- (5 / 2)"] b by simp
  have 3: "parseDurationMs (ascii ''0.25ms 0.25ms'') = Inr (Num 1)"
    using rounding_policy[of "ascii ''0.25ms 0.25ms''" "Num 1" "Num (1 / 2)" "1 / 2"] a c by simp
  have 4: "parseDurationMs (ascii ''-00:00:00.0005'') = Inr NegZero"
    "clock_total \<lparr>negative = True, hours = 0, minutes = 0, seconds = 1 / 2000\<rparr> =
       Num (- (1 / 2))"
    using rounding_policy[of "ascii ''-00:00:00.0005''" NegZero "Num (- (1 / 2))" "- (1 / 2)"]
      e e' b(3) by simp_all
  have 5: "parseDurationMs (ascii ''-1500.5'') = Inr (Num (- 1500))"
    "Number (trim (ascii ''-1500.5'')) = Num (- (3001 / 2))"
    using rounding_policy[of "ascii ''-1500.5''" "Num (- 1500)" "Num (- (3001 / 2))" "- (3001 / 2)"]
      f by simp_all
  show ?thesis using a b c d e e' f 1 2 3 4 5 by simp
qed

text \<open>
  C5. A token whose lowercased unit is not a spelling of the unit table is to fail the
  parse with \<open>unknown unit\<close>, the unit as it was written and the input as it was
  given. The code misses one unit. The unit table is an object, and a lookup in it also
  finds what the object inherits: \<open>constructor\<close> is no spelling of the table, yet the
  lookup yields the function \<open>Object\<close>, which passes the test \<open>!msPer\<close> of the guard
  and multiplies as NaN. So \<open>1 constructor\<close> returns NaN, where the claim, the guard and
  the documentation ask for the failure \<open>unknown unit "constructor" in "1 constructor"\<close>.
\<close>

theorem inherited_name_as_unit:
  "classify (ascii ''1 constructor'') = Token_list \<and>
   tokens_of (tokenize (trim (ascii ''1 constructor''))) = [(ascii ''1'', ascii ''constructor'')] \<and>
   \<not> is_canonical (toLowerCase (ascii ''constructor'')) \<and>
   get_UNIT_MS (toLowerCase (ascii ''constructor'')) = Object_value \<and>
   parseDurationMs (ascii ''1 constructor'') = Inr NaN \<and>
   parseDurationMs (ascii ''1 constructor'') \<noteq>
     Inl (Unknown_unit (ascii ''constructor'') (ascii ''1 constructor''))"
proof -
  have a: "classify (ascii ''1 constructor'') = Token_list"
    "tokens_of (tokenize (trim (ascii ''1 constructor''))) = [(ascii ''1'', ascii ''constructor'')]"
    "skipped_of (tokenize (trim (ascii ''1 constructor''))) = []"
    by (simp_all add: classify_def eval token_eval)
  have b: "isFinite (Number (ascii ''1''))"
    "truthy (get_UNIT_MS (toLowerCase (ascii ''constructor'')))"
    "ToNumber (get_UNIT_MS (toLowerCase (ascii ''constructor''))) = NaN"
    "add (Num 0) (mul (Number (ascii ''1'')) NaN) = NaN"
    "Math_round NaN = NaN"
    by (simp_all add: eval)
  have c: "\<not> is_canonical (toLowerCase (ascii ''constructor''))" by (simp add: eval token_eval)
  have d: "get_UNIT_MS (toLowerCase (ascii ''constructor'')) = Object_value" by (simp add: eval)
  have "parseDurationMs (ascii ''1 constructor'') = Inr NaN"
    unfolding parseDurationMs_tokens[OF a(1)] a(2) a(3) using b by simp
  then show ?thesis using a c d by simp
qed

text \<open>
  For every other unit the guard does what it is meant to. In the token list, the
  leftmost token whose lowercased unit is not a spelling of the unit table, and not the
  inherited name either, is reported when the numbers of the tokens up to and including
  it are finite: the parse returns no value and fails with \<open>unknown unit\<close>, naming the
  unit as it was written and the input as it was given.
\<close>

theorem unknown_unit_reported:
  assumes "classify raw = Token_list"
    and "tokens_of (tokenize (trim raw)) = pre @ (num, unit) # post"
    and "list_all (\<lambda>t. is_canonical (toLowerCase (snd t))) pre"
    and "\<not> is_canonical (toLowerCase unit)"
    and "list_all (\<lambda>t. \<bar>signed_value (fst t)\<bar> < overflow_threshold) (pre @ [(num, unit)])"
    and "toLowerCase unit \<noteq> ascii ''constructor''"
  shows "parseDurationMs raw = Inl (Unknown_unit unit raw)"
proof -
  let ?ts = "tokens_of (tokenize (trim raw))"
  let ?st = "\<lparr>total = Num 0, matchedAny = False\<rparr>"
  have fin: "isFinite (Number (fst t))"
    if "t \<in> set (pre @ [(num, unit)])" for t
  proof -
    have "(fst t, snd t) \<in> set ?ts" using that assms(2) by auto
    then have "is_signed_decimal (fst t)" using tokens_texts by blast
    moreover have "\<bar>signed_value (fst t)\<bar> < overflow_threshold"
      using that assms(5) unfolding list_all_iff by blast
    ultimately show ?thesis using isFinite_Number by blast
  qed
  have pre: "list_all token_ok pre"
    using fin assms(3) unfolding list_all_iff token_ok_def by auto
  have n: "isFinite (Number num)" using fin[of "(num, unit)"] by simp
  have "(num, unit) \<in> set ?ts" using assms(2) by simp
  then have "list_all is_letter unit" using tokens_texts by blast
  then have "list_all (\<lambda>c. 97 \<le> c \<and> c \<le> 122) (toLowerCase unit)"
    by (rule toLowerCase_letters)
  then have "toLowerCase unit \<notin> set (map ascii Object_prototype)"
    using inherited_lowercase assms(6) by blast
  moreover have "multiplier (toLowerCase unit) = None"
    using assms(4) by (simp add: is_canonical_def)
  ultimately have u: "\<not> truthy (get_UNIT_MS (toLowerCase unit))"
    by (rule get_UNIT_MS_unknown[rotated])
  have "loop_tokens raw ?ts ?st = Inl (Unknown_unit unit raw)"
    unfolding assms(2) loop_tokens_append[OF pre] using n u by simp
  then show ?thesis unfolding parseDurationMs_tokens[OF assms(1)] by simp
qed

theorem unknown_unit_reported_witness:
  "classify (ascii ''10 XYZ'') = Token_list \<and>
   tokens_of (tokenize (trim (ascii ''10 XYZ''))) = [] @ (ascii ''10'', ascii ''XYZ'') # [] \<and>
   \<not> is_canonical (toLowerCase (ascii ''XYZ'')) \<and>
   \<bar>signed_value (ascii ''10'')\<bar> < overflow_threshold \<and>
   toLowerCase (ascii ''XYZ'') \<noteq> ascii ''constructor'' \<and>
   parseDurationMs (ascii ''10 XYZ'') = Inl (Unknown_unit (ascii ''XYZ'') (ascii ''10 XYZ'')) \<and>
   classify (ascii '' 1H 2Xy 3zz'') = Token_list \<and>
   tokens_of (tokenize (trim (ascii '' 1H 2Xy 3zz''))) =
     [(ascii ''1'', ascii ''H'')] @ (ascii ''2'', ascii ''Xy'') # [(ascii ''3'', ascii ''zz'')] \<and>
   is_canonical (toLowerCase (ascii ''H'')) \<and>
   parseDurationMs (ascii '' 1H 2Xy 3zz'') =
     Inl (Unknown_unit (ascii ''Xy'') (ascii '' 1H 2Xy 3zz''))"
proof -
  have a: "classify (ascii ''10 XYZ'') = Token_list"
    "tokens_of (tokenize (trim (ascii ''10 XYZ''))) = [] @ (ascii ''10'', ascii ''XYZ'') # []"
    "\<not> is_canonical (toLowerCase (ascii ''XYZ''))"
    "toLowerCase (ascii ''XYZ'') \<noteq> ascii ''constructor''"
    by (simp_all add: classify_def eval token_eval)
  have b: "\<bar>signed_value (ascii ''10'')\<bar> < overflow_threshold"
    "\<bar>signed_value (ascii ''1'')\<bar> < overflow_threshold"
    "\<bar>signed_value (ascii ''2'')\<bar> < overflow_threshold"
    by (simp_all add: eval clock_eval)
  have c: "classify (ascii '' 1H 2Xy 3zz'') = Token_list"
    "tokens_of (tokenize (trim (ascii '' 1H 2Xy 3zz''))) =
     [(ascii ''1'', ascii ''H'')] @ (ascii ''2'', ascii ''Xy'') # [(ascii ''3'', ascii ''zz'')]"
    "is_canonical (toLowerCase (ascii ''H''))"
    "\<not> is_canonical (toLowerCase (ascii ''Xy''))"
    "toLowerCase (ascii ''Xy'') \<noteq> ascii ''constructor''"
    by (simp_all add: classify_def eval token_eval)
  have 1: "parseDurationMs (ascii ''10 XYZ'') = Inl (Unknown_unit (ascii ''XYZ'') (ascii ''10 XYZ''))"
    using unknown_unit_reported[OF a(1) a(2) _ a(3) _ a(4)] b by simp
  have 2: "parseDurationMs (ascii '' 1H 2Xy 3zz'') =
     Inl (Unknown_unit (ascii ''Xy'') (ascii '' 1H 2Xy 3zz''))"
    using unknown_unit_reported[OF c(1) c(2) _ c(4) _ c(5)] b c(3) by simp
  show ?thesis using a b c 1 2 by blast
qed

text \<open>
  The number of a token is checked before its unit: when the tokens before it have
  finite numbers and units of the table, a token whose number reads as an infinity
  fails the parse with \<open>invalid number\<close>, whatever its unit is.
\<close>

theorem number_checked_before_unit:
  assumes "classify raw = Token_list"
    and "tokens_of (tokenize (trim raw)) = pre @ (num, unit) # post"
    and "list_all (\<lambda>t. \<bar>signed_value (fst t)\<bar> < overflow_threshold
                      \<and> is_canonical (toLowerCase (snd t))) pre"
    and "overflow_threshold \<le> \<bar>signed_value num\<bar>"
  shows "parseDurationMs raw = Inl (Invalid_number_in num raw)"
proof -
  let ?ts = "tokens_of (tokenize (trim raw))"
  let ?st = "\<lparr>total = Num 0, matchedAny = False\<rparr>"
  have "token_ok t" if "t \<in> set pre" for t
  proof -
    have "(fst t, snd t) \<in> set ?ts" using that assms(2) by auto
    then have "is_signed_decimal (fst t)" using tokens_texts by blast
    moreover have "\<bar>signed_value (fst t)\<bar> < overflow_threshold"
      "is_canonical (toLowerCase (snd t))"
      using that assms(3) unfolding list_all_iff by blast+
    ultimately show ?thesis using isFinite_Number unfolding token_ok_def by blast
  qed
  then have pre: "list_all token_ok pre" unfolding list_all_iff by blast
  have "(num, unit) \<in> set ?ts" using assms(2) by simp
  then have "is_signed_decimal num" using tokens_texts by blast
  then have n: "\<not> isFinite (Number num)" using isFinite_Number[of num] assms(4) by simp
  have "loop_tokens raw ?ts ?st = Inl (Invalid_number_in num raw)"
    unfolding assms(2) loop_tokens_append[OF pre] using n by simp
  then show ?thesis unfolding parseDurationMs_tokens[OF assms(1)] by simp
qed

text \<open>
  So the digit 1 followed by 309 zeros and the unknown unit \<open>x\<close> fails with
  \<open>invalid number\<close>, not with \<open>unknown unit\<close>.
\<close>

theorem unknown_unit_after_number_check:
  "classify (one_and_zeros 309 @ ascii ''x'') = Token_list \<and>
   tokens_of (tokenize (trim (one_and_zeros 309 @ ascii ''x''))) =
     [(one_and_zeros 309, ascii ''x'')] \<and>
   \<not> is_canonical (toLowerCase (ascii ''x'')) \<and>
   parseDurationMs (one_and_zeros 309 @ ascii ''x'') =
     Inl (Invalid_number_in (one_and_zeros 309) (one_and_zeros 309 @ ascii ''x''))"
proof -
  have u: "ascii ''x'' \<noteq> []" "list_all is_letter (ascii ''x'')"
    by (simp_all add: ascii_def is_letter_def)
  have "\<not> is_canonical (toLowerCase (ascii ''x''))" by (simp add: eval token_eval)
  then show ?thesis
    using parse_one_and_zeros_unit(1)[OF u] parse_one_and_zeros_unit(2)[OF u]
      parse_one_and_zeros_unit(3)[OF u] by simp
qed

text \<open>
  C1 (as amended). For an input routed to the token list whose tokens all have a finite
  number and a unit that lowercases to a spelling of the unit table: if the tokens cover
  every character that is not whitespace, there is a token and \<open>parseDurationMs\<close> returns
  the total rounded once, the total being the binary64 sum, from 0 and from left to
  right, of \<open>value * multiplier(unit)\<close> of each token; if there is no token, or a
  character that is not whitespace is left over, it fails with \<open>could not fully parse\<close>
  and the input as it was given.
\<close>

theorem token_list_contract:
  assumes "classify raw = Token_list"
    and "list_all (\<lambda>t. \<bar>signed_value (fst t)\<bar> < overflow_threshold
                      \<and> is_canonical (toLowerCase (snd t)))
           (tokens_of (tokenize (trim raw)))"
  shows "(list_all is_white_space (skipped_of (tokenize (trim raw))) \<longrightarrow>
            tokens_of (tokenize (trim raw)) \<noteq> [] \<and>
            parseDurationMs raw = Inr (Math_round (token_sum (tokens_of (tokenize (trim raw)))))) \<and>
         (tokens_of (tokenize (trim raw)) = []
            \<or> \<not> list_all is_white_space (skipped_of (tokenize (trim raw))) \<longrightarrow>
            parseDurationMs raw = Inl (Could_not_fully_parse raw))"
proof -
  let ?ts = "tokens_of (tokenize (trim raw))"
  let ?st = "\<lparr>total = Num 0, matchedAny = False\<rparr>"
  have "token_ok t" if "t \<in> set ?ts" for t
  proof -
    have "(fst t, snd t) \<in> set ?ts" using that by simp
    then have "is_signed_decimal (fst t)" using tokens_texts by blast
    moreover have "\<bar>signed_value (fst t)\<bar> < overflow_threshold"
      "is_canonical (toLowerCase (snd t))"
      using that assms(2) unfolding list_all_iff by blast+
    ultimately show ?thesis using isFinite_Number unfolding token_ok_def by blast
  qed
  then have "list_all token_ok ?ts" unfolding list_all_iff by blast
  then have l: "loop_tokens raw ?ts ?st = Inr \<lparr>total = token_sum ?ts, matchedAny = (?ts \<noteq> [])\<rparr>"
    using loop_tokens_ok[of ?ts raw ?st] by (simp add: token_sum_def)
  have p: "parseDurationMs raw =
      (if ?ts \<noteq> [] \<and> list_all is_white_space (skipped_of (tokenize (trim raw)))
       then Inr (Math_round (token_sum ?ts)) else Inl (Could_not_fully_parse raw))"
    unfolding parseDurationMs_tokens[OF assms(1)] l by simp
  have t: "trim raw \<noteq> []" using assms(1) by (simp add: classify_Token_list)
  have c: "?ts \<noteq> []" if "list_all is_white_space (skipped_of (tokenize (trim raw)))"
    using covered_has_token[OF t that] .
  show ?thesis using p c by auto
qed


theorem token_list_contract_witness:
  "classify (ascii ''0.25ms 0.25ms'') = Token_list \<and>
   tokens_of (tokenize (trim (ascii ''0.25ms 0.25ms''))) =
     [(ascii ''0.25'', ascii ''ms''), (ascii ''0.25'', ascii ''ms'')] \<and>
   parseDurationMs (ascii ''0.25ms 0.25ms'') = Inr (Num 1) \<and>
   classify (ascii ''1h -30m'') = Token_list \<and>
   tokens_of (tokenize (trim (ascii ''1h -30m''))) =
     [(ascii ''1'', ascii ''h''), (ascii ''-30'', ascii ''m'')] \<and>
   parseDurationMs (ascii ''1h -30m'') = Inr (Num 1800000) \<and>
   classify (ascii ''1h abc'') = Token_list \<and>
   parseDurationMs (ascii ''1h abc'') = Inl (Could_not_fully_parse (ascii ''1h abc'')) \<and>
   classify (ascii ''1h30'') = Token_list \<and>
   parseDurationMs (ascii ''1h30'') = Inl (Could_not_fully_parse (ascii ''1h30'')) \<and>
   classify (ascii ''1h,'') = Token_list \<and>
   parseDurationMs (ascii ''1h,'') = Inl (Could_not_fully_parse (ascii ''1h,'')) \<and>
   classify (ascii ''abc'') = Token_list \<and>
   tokens_of (tokenize (trim (ascii ''abc''))) = [] \<and>
   parseDurationMs (ascii ''abc'') = Inl (Could_not_fully_parse (ascii ''abc''))"
proof -
  have v: "\<bar>signed_value (ascii ''0.25'')\<bar> < overflow_threshold"
    "\<bar>signed_value (ascii ''1'')\<bar> < overflow_threshold"
    "\<bar>signed_value (ascii ''-30'')\<bar> < overflow_threshold"
    by (simp_all add: eval clock_eval)
  have u: "is_canonical (toLowerCase (ascii ''ms''))" "is_canonical (toLowerCase (ascii ''h''))"
    "is_canonical (toLowerCase (ascii ''m''))"
    by (simp_all add: eval token_eval)
  have a: "classify (ascii ''0.25ms 0.25ms'') = Token_list"
    "tokens_of (tokenize (trim (ascii ''0.25ms 0.25ms''))) =
       [(ascii ''0.25'', ascii ''ms''), (ascii ''0.25'', ascii ''ms'')]"
    "skipped_of (tokenize (trim (ascii ''0.25ms 0.25ms''))) = [32]"
    by (simp_all add: classify_def eval token_eval)
  have a': "Math_round (token_sum [(ascii ''0.25'', ascii ''ms''), (ascii ''0.25'', ascii ''ms'')])
      = Num 1"
    by (simp add: eval token_eval)
  have b: "classify (ascii ''1h -30m'') = Token_list"
    "tokens_of (tokenize (trim (ascii ''1h -30m''))) =
       [(ascii ''1'', ascii ''h''), (ascii ''-30'', ascii ''m'')]"
    "skipped_of (tokenize (trim (ascii ''1h -30m''))) = [32]"
    by (simp_all add: classify_def eval token_eval)
  have b': "Math_round (token_sum [(ascii ''1'', ascii ''h''), (ascii ''-30'', ascii ''m'')])
      = Num 1800000"
    by (simp add: eval token_eval)
  have c: "classify (ascii ''1h abc'') = Token_list"
    "tokens_of (tokenize (trim (ascii ''1h abc''))) = [(ascii ''1'', ascii ''h'')]"
    "skipped_of (tokenize (trim (ascii ''1h abc''))) = ascii '' abc''"
    by (simp_all add: classify_def eval token_eval)
  have d: "classify (ascii ''1h30'') = Token_list"
    "tokens_of (tokenize (trim (ascii ''1h30''))) = [(ascii ''1'', ascii ''h'')]"
    "skipped_of (tokenize (trim (ascii ''1h30''))) = ascii ''30''"
    by (simp_all add: classify_def eval token_eval)
  have e: "classify (ascii ''1h,'') = Token_list"
    "tokens_of (tokenize (trim (ascii ''1h,''))) = [(ascii ''1'', ascii ''h'')]"
    "skipped_of (tokenize (trim (ascii ''1h,''))) = ascii '',''"
    by (simp_all add: classify_def eval token_eval)
  have f: "classify (ascii ''abc'') = Token_list"
    "tokens_of (tokenize (trim (ascii ''abc''))) = []"
    by (simp_all add: classify_def eval token_eval)
  have w: "is_white_space 32" "\<not> list_all is_white_space (ascii '' abc'')"
    "\<not> list_all is_white_space (ascii ''30'')" "\<not> list_all is_white_space (ascii '','')"
    by (simp_all add: str_eval)
  have 1: "parseDurationMs (ascii ''0.25ms 0.25ms'') = Inr (Num 1)"
    using token_list_contract[OF a(1)] a(2) a(3) a' v u w by simp
  have 2: "parseDurationMs (ascii ''1h -30m'') = Inr (Num 1800000)"
    using token_list_contract[OF b(1)] b(2) b(3) b' v u w by simp
  have 3: "parseDurationMs (ascii ''1h abc'') = Inl (Could_not_fully_parse (ascii ''1h abc''))"
    using token_list_contract[OF c(1)] c(2) c(3) v u w by simp
  have 4: "parseDurationMs (ascii ''1h30'') = Inl (Could_not_fully_parse (ascii ''1h30''))"
    using token_list_contract[OF d(1)] d(2) d(3) v u w by simp
  have 5: "parseDurationMs (ascii ''1h,'') = Inl (Could_not_fully_parse (ascii ''1h,''))"
    using token_list_contract[OF e(1)] e(2) e(3) v u w by simp
  have 6: "parseDurationMs (ascii ''abc'') = Inl (Could_not_fully_parse (ascii ''abc''))"
    using token_list_contract[OF f(1)] f(2) by simp
  show ?thesis using a b c d e f 1 2 3 4 5 6 by blast
qed

text \<open>
  C1 as it is stated fails on both of its halves. The digit 1 followed by 309 zeros and
  the unit \<open>ms\<close> is one token that covers the whole input and has a canonical unit, and
  the parse fails with \<open>invalid number\<close>. In \<open>1x abc\<close> characters that are not
  whitespace are left over, and the parse fails with \<open>unknown unit\<close>, not with
  \<open>could not fully parse\<close>.
\<close>

theorem token_list_contract_counterexample:
  "classify (one_and_zeros 309 @ ascii ''ms'') = Token_list \<and>
   tokens_of (tokenize (trim (one_and_zeros 309 @ ascii ''ms''))) =
     [(one_and_zeros 309, ascii ''ms'')] \<and>
   skipped_of (tokenize (trim (one_and_zeros 309 @ ascii ''ms''))) = [] \<and>
   is_canonical (toLowerCase (ascii ''ms'')) \<and>
   parseDurationMs (one_and_zeros 309 @ ascii ''ms'') =
     Inl (Invalid_number_in (one_and_zeros 309) (one_and_zeros 309 @ ascii ''ms'')) \<and>
   classify (ascii ''1x abc'') = Token_list \<and>
   skipped_of (tokenize (trim (ascii ''1x abc''))) = ascii '' abc'' \<and>
   parseDurationMs (ascii ''1x abc'') = Inl (Unknown_unit (ascii ''x'') (ascii ''1x abc''))"
proof -
  have u: "ascii ''ms'' \<noteq> []" "list_all is_letter (ascii ''ms'')"
    by (simp_all add: ascii_def is_letter_def)
  have c: "is_canonical (toLowerCase (ascii ''ms''))" by (simp add: eval token_eval)
  have a: "classify (ascii ''1x abc'') = Token_list"
    "skipped_of (tokenize (trim (ascii ''1x abc''))) = ascii '' abc''"
    "tokens_of (tokenize (trim (ascii ''1x abc''))) = [(ascii ''1'', ascii ''x'')]"
    by (simp_all add: classify_def eval token_eval)
  have "isFinite (Number (ascii ''1''))" "\<not> truthy (get_UNIT_MS (toLowerCase (ascii ''x'')))"
    by (simp_all add: eval)
  then have p: "parseDurationMs (ascii ''1x abc'') = Inl (Unknown_unit (ascii ''x'') (ascii ''1x abc''))"
    unfolding parseDurationMs_tokens[OF a(1)] a(3) by simp
  show ?thesis
    using parse_one_and_zeros_unit[OF u] c a(1) a(2) p by simp
qed

text \<open>
  The arithmetic is that of binary64: \<open>0.5005 * 1000\<close> is just below 500.5 there, so
  \<open>0.5005s\<close> gives 500, where the product of the decimal values, 500.5, would round
  to 501.
\<close>

theorem binary64_product_before_rounding:
  "parseDurationMs (ascii ''0.5005s'') = Inr (Num 500) \<and>
   signed_value (ascii ''0.5005'') * 1000 = 1001 / 2 \<and>
   Math_round (Num (1001 / 2)) = Num 501"
proof -
  have a: "classify (ascii ''0.5005s'') = Token_list"
    "tokens_of (tokenize (trim (ascii ''0.5005s''))) = [(ascii ''0.5005'', ascii ''s'')]"
    "skipped_of (tokenize (trim (ascii ''0.5005s''))) = []"
    by (simp_all add: classify_def eval token_eval)
  have n: "isFinite (Number (ascii ''0.5005''))" by (simp add: eval)
  have u: "truthy (get_UNIT_MS (toLowerCase (ascii ''s'')))"
    "ToNumber (get_UNIT_MS (toLowerCase (ascii ''s''))) = Num 1000"
    by (simp_all add: eval)
  have m: "Math_round (add (Num 0) (mul (Number (ascii ''0.5005'')) (Num 1000))) = Num 500"
    by (simp add: eval)
  have p: "parseDurationMs (ascii ''0.5005s'') = Inr (Num 500)"
    unfolding parseDurationMs_tokens[OF a(1)] a(2) a(3) using n u m by simp
  have v: "signed_value (ascii ''0.5005'') * 1000 = 1001 / 2" by (simp add: eval clock_eval)
  have r: "Math_round (Num (1001 / 2)) = Num 501" by (simp add: eval)
  show ?thesis using p v r by simp
qed

end
